theory Spec2Isabelle
  imports Main
begin

section \<open>Exceptions, nested structures, events\<close>

text \<open>
  Python exceptions that occur in the two source files or that a collaborator
  (hook, stream, fetch op) may raise.  \<open>SystemExit\<close> and \<open>KeyboardInterrupt\<close> derive
  from \<open>BaseException\<close> only, so \<^verbatim>\<open>except Exception\<close> does not catch them.
  An operation returns \<open>(Inl e, s)\<close> when it raises \<open>e\<close> and \<open>(Inr v, s)\<close> when it
  returns \<open>v\<close>; in both cases \<open>s\<close> is the state it leaves behind.
\<close>

datatype exn =
    ShutdownRequest
  | NotImplementedError
  | ZeroDivisionError
  | StopIteration
  | KeyError string
  | TypeError
  | IndexError
  | AssertionError
  | ValueError string
  | HookError string
  | SystemExit int
  | KeyboardInterrupt

fun is_Exception :: "exn \<Rightarrow> bool" where
  "is_Exception (SystemExit _) = False"
| "is_Exception KeyboardInterrupt = False"
| "is_Exception _ = True"

text \<open>
  A nested mapping/sequence structure (Python dicts and lists) with leaves of type
  \<open>'a\<close>.  For batches, feeds and results the leaves are object references (the
  identity of an array-like object whose data lives in the world); for the fetch
  structure the leaves are callables.
\<close>

datatype 'a tree =
    Leaf 'a
  | Dict "(string \<times> 'a tree) list"
  | Seq "'a tree list"

text \<open>
  What an observer of a run can see, in order: logger output, the iterations of the
  three \<^verbatim>\<open>trange\<close> progress loops, calls on the split streams, calls of
  \<^verbatim>\<open>self.run\<close> (with the feed payload) and calls of hook callbacks.
  \<open>HookCall eh i cb idx\<close> is a call of callback \<open>cb\<close> with index \<open>idx\<close> on the hook at
  position \<open>i\<close> of \<^verbatim>\<open>self.epoch_hooks\<close> (\<open>eh\<close> true) or \<^verbatim>\<open>self.hooks\<close> (\<open>eh\<close> false);
  \<open>ExcCall i e\<close> is \<^verbatim>\<open>self.hooks[i].at_exception(e)\<close>.
\<close>

datatype callback = BeforeEpoch | AfterEpoch | BeforeStep | AfterStep

datatype 'v event =
    Warning string
  | Info string
  | EpochIter nat
  | BatchIter nat
  | SplitIter string nat
  | Next string nat
  | Reset nat
  | Run "'v tree"
  | HookCall bool nat callback nat
  | ExcCall nat exn

section \<open>The iterator's state\<close>

text \<open>
  The mutable attributes of \<^verbatim>\<open>PyHookedModelIterator\<close> (\<^verbatim>\<open>_global_step\<close>,
  \<^verbatim>\<open>_batch_step\<close>, \<^verbatim>\<open>_epoch_step\<close>, \<^verbatim>\<open>_split\<close>), the \<^verbatim>\<open>nonlocal active\<close> cell of the
  per-split loop, the world \<open>'w\<close> of everything the collaborators own (model, hook
  state, streams, array data), and the trace of events, each stamped with the value
  of \<^verbatim>\<open>_global_step\<close> at the moment it happened.
\<close>

record ('v, 'w) state =
  global_step :: int
  batch_step :: nat
  epoch_step :: nat
  cur_split :: "string option"
  active :: bool
  world :: 'w
  trace :: "(int \<times> 'v event) list"

definition log_event :: "'v event \<Rightarrow> ('v, 'w) state \<Rightarrow> ('v, 'w) state" where
  "log_event ev st = st\<lparr>trace := trace st @ [(global_step st, ev)]\<rparr>"

definition in_world ::
  "('w \<Rightarrow> (exn + 'a) \<times> 'w) \<Rightarrow> ('v, 'w) state \<Rightarrow> (exn + 'a) \<times> ('v, 'w) state" where
  "in_world f st = (case f (world st) of (r, w) \<Rightarrow> (r, st\<lparr>world := w\<rparr>))"

section \<open>Collaborators: hooks, fetch ops, split streams\<close>

text \<open>
  A fetch op is called as \<^verbatim>\<open>fetch_fn(self.model, **feed_dict)\<close>: it sees the feed
  payload and may read and change the world (the model and the data behind the
  leaves).

  A thunk is the closure \<^verbatim>\<open>split_op\<close> stored in the results dict.

  The code of a hook's \<^verbatim>\<open>after_step\<close> receives the results dict and may call the
  thunks in it any number of times, in between changing the world, and may catch what
  a thunk raises.  It is modelled as an interaction tree: \<open>Return w\<close> returns,
  \<open>Raise e w\<close> raises, and \<open>Invoke w s k\<close> evaluates \<^verbatim>\<open>results[s]()\<close> in world \<open>w\<close> and
  goes on as \<open>k r w'\<close> with the outcome \<open>r\<close> of the call and the world \<open>w'\<close> it left.
  The other callbacks receive no thunk and are functions of the world.  Hooks
  receive no reference to the iterator: they cannot assign its attributes.  They
  leave the dicts they are handed (fetches, feeds, batch, results) as they are, and
  call a thunk only during the \<^verbatim>\<open>after_step\<close> that received it.
\<close>

type_synonym ('v, 'w) fetch_op = "'v tree \<Rightarrow> 'w \<Rightarrow> (exn + 'v) \<times> 'w"

type_synonym ('v, 'w) thunk =
  "('v, 'w) state \<Rightarrow> (exn + 'v tree) \<times> ('v, 'w) state"

datatype ('v, 'w) action =
    Return 'w
  | Raise exn 'w
  | Invoke 'w string "(exn + 'v tree) \<Rightarrow> 'w \<Rightarrow> ('v, 'w) action"

record ('v, 'w) hook =
  before_epoch :: "nat \<Rightarrow> 'w \<Rightarrow> (exn + unit) \<times> 'w"
  after_epoch :: "nat \<Rightarrow> 'w \<Rightarrow> (exn + unit) \<times> 'w"
  before_step ::
    "nat \<Rightarrow> ('v, 'w) fetch_op tree option \<Rightarrow> 'v tree option \<Rightarrow> 'v tree option
      \<Rightarrow> 'w \<Rightarrow> (exn + unit) \<times> 'w"
  after_step :: "nat \<Rightarrow> (int \<times> string list) option \<Rightarrow> 'w \<Rightarrow> ('v, 'w) action"
  at_exception :: "exn \<Rightarrow> 'w \<Rightarrow> (exn + unit) \<times> 'w"

text \<open>
  The constructor arguments and configuration entries the loop reads
  (\<^verbatim>\<open>config.get("test_mode", False)\<close>, \<^verbatim>\<open>config.get("num_steps", float("inf"))\<close> with
  \<open>None\<close> for the default, \<^verbatim>\<open>num_epochs\<close>, \<^verbatim>\<open>hook_freq\<close>, \<^verbatim>\<open>hooks\<close>, \<^verbatim>\<open>epoch_hooks\<close>),
  the \<^verbatim>\<open>step_ops\<close> method a subclass supplies, and the interface of the split
  streams, which are objects of the world addressed by a reference:
  \<^verbatim>\<open>next(s)\<close>, \<^verbatim>\<open>s.is_new_epoch\<close>, \<^verbatim>\<open>s.reset()\<close>, \<^verbatim>\<open>len(s)\<close>.
\<close>

record ('v, 'w) iterator =
  test_mode :: bool
  num_steps :: "int option"
  num_epochs :: int
  hook_freq :: int
  hooks :: "('v, 'w) hook list"
  epoch_hooks :: "('v, 'w) hook list"
  step_ops :: "'w \<Rightarrow> (exn + ('v, 'w) fetch_op tree) \<times> 'w"
  stream_next :: "nat \<Rightarrow> 'w \<Rightarrow> (exn + 'v tree) \<times> 'w"
  stream_is_new_epoch :: "nat \<Rightarrow> 'w \<Rightarrow> bool"
  stream_reset :: "nat \<Rightarrow> 'w \<Rightarrow> 'w"
  stream_len :: "nat \<Rightarrow> 'w \<Rightarrow> nat"

section \<open>edflow.util.walk, make\_feeds and run\<close>

text \<open>
  Modelled from the spec: \<^verbatim>\<open>edflow.util.walk\<close> is imported by
  \<^verbatim>\<open>model_iterator.py\<close> but its file is not among the sources.  Section 4.2 of the
  spec describes what \<^verbatim>\<open>run\<close> obtains from it: a structure of identical shape in which
  each leaf has been replaced by the result of calling the function on it, visiting
  the leaves in order, without re-ordering, deduplication or caching.  A leaf call
  that raises ends the walk.
\<close>

fun walk :: "('a \<Rightarrow> 's \<Rightarrow> (exn + 'b) \<times> 's) \<Rightarrow> 'a tree \<Rightarrow> 's \<Rightarrow> (exn + 'b tree) \<times> 's"
  and walk_items ::
    "('a \<Rightarrow> 's \<Rightarrow> (exn + 'b) \<times> 's) \<Rightarrow> (string \<times> 'a tree) list \<Rightarrow> 's
      \<Rightarrow> (exn + (string \<times> 'b tree) list) \<times> 's"
  and walk_list ::
    "('a \<Rightarrow> 's \<Rightarrow> (exn + 'b) \<times> 's) \<Rightarrow> 'a tree list \<Rightarrow> 's \<Rightarrow> (exn + 'b tree list) \<times> 's"
where
  "walk fn (Leaf a) s =
     (case fn a s of (Inl e, s') \<Rightarrow> (Inl e, s') | (Inr b, s') \<Rightarrow> (Inr (Leaf b), s'))"
| "walk fn (Dict kvs) s =
     (case walk_items fn kvs s of
        (Inl e, s') \<Rightarrow> (Inl e, s')
      | (Inr kvs', s') \<Rightarrow> (Inr (Dict kvs'), s'))"
| "walk fn (Seq ts) s =
     (case walk_list fn ts s of
        (Inl e, s') \<Rightarrow> (Inl e, s')
      | (Inr ts', s') \<Rightarrow> (Inr (Seq ts'), s'))"
| "walk_items fn [] s = (Inr [], s)"
| "walk_items fn (kv # kvs) s =
     (case walk fn (snd kv) s of
        (Inl e, s') \<Rightarrow> (Inl e, s')
      | (Inr t', s') \<Rightarrow>
          (case walk_items fn kvs s' of
             (Inl e, s'') \<Rightarrow> (Inl e, s'')
           | (Inr kvs', s'') \<Rightarrow> (Inr ((fst kv, t') # kvs'), s'')))"
| "walk_list fn [] s = (Inr [], s)"
| "walk_list fn (t # ts) s =
     (case walk fn t s of
        (Inl e, s') \<Rightarrow> (Inl e, s')
      | (Inr t', s') \<Rightarrow>
          (case walk_list fn ts s' of
             (Inl e, s'') \<Rightarrow> (Inl e, s'')
           | (Inr ts', s'') \<Rightarrow> (Inr (t' # ts'), s'')))"

text \<open>
  \<^verbatim>\<open>make_feeds\<close>: \<^verbatim>\<open>feeds = walk(batch, lambda val: val)\<close>.  The leaf function hands
  back the object it is given.
\<close>

definition make_feeds :: "'v tree \<Rightarrow> 's \<Rightarrow> (exn + 'v tree) \<times> 's" where
  "make_feeds batch s = walk (\<lambda>val s'. (Inr val, s')) batch s"

text \<open>
  \<^verbatim>\<open>run\<close>: \<^verbatim>\<open>walk(fetches, fn)\<close> with \<^verbatim>\<open>fn(fetch_fn) = fetch_fn(self.model, **feed_dict)\<close>;
  every fetch op is handed the same \<^verbatim>\<open>feed_dict\<close>.  The call unpacks \<^verbatim>\<open>feed_dict\<close> as
  keyword arguments: when it is not a mapping, the call of \<^verbatim>\<open>fn\<close> raises \<^verbatim>\<open>TypeError\<close>
  before the fetch op is entered.
\<close>

definition run ::
  "('v, 'w) fetch_op tree \<Rightarrow> 'v tree \<Rightarrow> ('v, 'w) state
    \<Rightarrow> (exn + 'v tree) \<times> ('v, 'w) state" where
  "run fetches feed_dict st =
     in_world
       (walk (\<lambda>fetch_fn.
                case feed_dict of
                  Dict kwargs \<Rightarrow> fetch_fn feed_dict
                | _ \<Rightarrow> (\<lambda>w. (Inl TypeError, w)))
          fetches)
       (log_event (Run feed_dict) st)"

section \<open>PyHookedModelIterator\<close>


text \<open>\<^verbatim>\<open>increment_global_step\<close>: a no-op when \<^verbatim>\<open>test_mode\<close> is set.\<close>

definition increment_global_step ::
  "('v, 'w) iterator \<Rightarrow> ('v, 'w) state \<Rightarrow> ('v, 'w) state" where
  "increment_global_step self st =
     (if \<not> test_mode self then st\<lparr>global_step := global_step st + 1\<rparr> else st)"

text \<open>
  \<^verbatim>\<open>for hook in hooks: body\<close>: the hooks in list order; a body that raises ends the
  loop.  \<open>pos\<close> is the position of the hook in the list.
\<close>

fun for_each_hook ::
  "(nat \<Rightarrow> ('v, 'w) hook \<Rightarrow> ('v, 'w) state \<Rightarrow> (exn + unit) \<times> ('v, 'w) state)
    \<Rightarrow> nat \<Rightarrow> ('v, 'w) hook list \<Rightarrow> ('v, 'w) state \<Rightarrow> (exn + unit) \<times> ('v, 'w) state" where
  "for_each_hook body pos [] st = (Inr (), st)"
| "for_each_hook body pos (hook # rest) st =
     (case body pos hook st of
        (Inl e, st') \<Rightarrow> (Inl e, st')
      | (Inr _, st') \<Rightarrow> for_each_hook body (Suc pos) rest st')"

text \<open>
  Running the code of an \<^verbatim>\<open>after_step\<close> against the thunks of the results dict.
  \<^verbatim>\<open>results["global_step"]\<close> is an integer and not callable, and so is anything
  subscripted from \<^verbatim>\<open>None\<close> when the call had no results (\<open>no_results\<close>): the hook gets
  \<^verbatim>\<open>TypeError\<close>.  A split that is not a key of the dict raises \<^verbatim>\<open>KeyError\<close> inside the
  hook.
\<close>

primrec run_action ::
  "('v, 'w) action \<Rightarrow> bool \<Rightarrow> (string \<times> ('v, 'w) thunk) list \<Rightarrow> ('v, 'w) state
    \<Rightarrow> (exn + unit) \<times> ('v, 'w) state" where
  "run_action (Return w) no_results thunks st = (Inr (), st\<lparr>world := w\<rparr>)"
| "run_action (Raise e w) no_results thunks st = (Inl e, st\<lparr>world := w\<rparr>)"
| "run_action (Invoke w s k) no_results thunks st =
     (if no_results \<or> s = ''global_step''
      then run_action (k (Inl TypeError) w) no_results thunks (st\<lparr>world := w\<rparr>)
      else
        (case map_of thunks s of
           None \<Rightarrow> run_action (k (Inl (KeyError s)) w) no_results thunks (st\<lparr>world := w\<rparr>)
         | Some split_op \<Rightarrow>
             (case split_op (st\<lparr>world := w\<rparr>) of
                (r, st') \<Rightarrow> run_action (k r (world st')) no_results thunks st')))"

text \<open>The body of the loop of \<^verbatim>\<open>run_hooks\<close>: which method of the hook is called.\<close>

definition call_hook ::
  "nat \<Rightarrow> ('v, 'w) fetch_op tree option \<Rightarrow> 'v tree option \<Rightarrow> 'v tree option
    \<Rightarrow> (int \<times> (string \<times> ('v, 'w) thunk) list) option \<Rightarrow> bool \<Rightarrow> bool \<Rightarrow> bool
    \<Rightarrow> nat \<Rightarrow> ('v, 'w) hook \<Rightarrow> ('v, 'w) state \<Rightarrow> (exn + unit) \<times> ('v, 'w) state" where
  "call_hook index fetches feeds batch results before is_step ehs pos hook st =
     (if before then
        (if is_step then
           in_world (before_step hook index fetches feeds batch)
             (log_event (HookCall ehs pos BeforeStep index) st)
         else
           in_world (before_epoch hook index)
             (log_event (HookCall ehs pos BeforeEpoch index) st))
      else
        (if is_step then
           (let st1 = log_event (HookCall ehs pos AfterStep index) st in
            run_action
              (after_step hook index
                 (map_option (\<lambda>r. (fst r, map fst (snd r))) results) (world st1))
              (Option.is_none results)
              (case results of None \<Rightarrow> [] | Some r \<Rightarrow> snd r) st1)
         else
           in_world (after_epoch hook index)
             (log_event (HookCall ehs pos AfterEpoch index) st)))"

text \<open>
  \<^verbatim>\<open>run_hooks\<close>.  \<^verbatim>\<open>self._global_step % self.hook_freq\<close> is evaluated first, on every
  call, and raises \<^verbatim>\<open>ZeroDivisionError\<close> when \<^verbatim>\<open>hook_freq\<close> is 0.  Python's \<^verbatim>\<open>%\<close> on
  integers is HOL's \<open>mod\<close> on \<open>int\<close> (the sign of the divisor).
\<close>

definition run_hooks ::
  "('v, 'w) iterator \<Rightarrow> nat \<Rightarrow> ('v, 'w) fetch_op tree option \<Rightarrow> 'v tree option
    \<Rightarrow> 'v tree option \<Rightarrow> (int \<times> (string \<times> ('v, 'w) thunk) list) option \<Rightarrow> bool \<Rightarrow> bool
    \<Rightarrow> ('v, 'w) state \<Rightarrow> (exn + unit) \<times> ('v, 'w) state" where
  "run_hooks self index fetches feeds batch results before ehs st =
     (let is_step =
            ((\<not> Option.is_none fetches \<and> \<not> Option.is_none feeds)
              \<or> \<not> Option.is_none results)
      in
        if hook_freq self = 0 then (Inl ZeroDivisionError, st)
        else
          (let condition = (global_step st mod hook_freq self = 0 \<or> \<not> is_step);
               hs = (if \<not> ehs then hooks self else epoch_hooks self)
           in
             if condition then
               for_each_hook
                 (call_hook index fetches feeds batch results before is_step ehs) 0 hs st
             else (Inr (), st)))"

text \<open>\<^verbatim>\<open>_handle_exception\<close>: \<^verbatim>\<open>for hook in self.hooks: hook.at_exception(e)\<close>.\<close>

definition private_handle_exception ::
  "('v, 'w) iterator \<Rightarrow> exn \<Rightarrow> ('v, 'w) state \<Rightarrow> (exn + unit) \<times> ('v, 'w) state" where
  "private_handle_exception self e st =
     for_each_hook
       (\<lambda>pos hook st'. in_world (at_exception hook e) (log_event (ExcCall pos e) st'))
       0 (hooks self) st"

text \<open>
  \<^verbatim>\<open>_handle_sigterm\<close>, the handler installed for SIGTERM and SIGINT: it runs in
  whatever state the signal finds the iterator.  \<^verbatim>\<open>sys.exit(0)\<close> raises
  \<^verbatim>\<open>SystemExit(0)\<close>.
\<close>

definition private_handle_sigterm ::
  "('v, 'w) iterator \<Rightarrow> int \<Rightarrow> ('v, 'w) state \<Rightarrow> (exn + unit) \<times> ('v, 'w) state" where
  "private_handle_sigterm self signum st =
     (case private_handle_exception self ShutdownRequest st of
        (Inl e, st') \<Rightarrow> (Inl e, st')
      | (Inr _, st') \<Rightarrow> (Inl (SystemExit 0), st'))"

text \<open>
  The closure \<^verbatim>\<open>split_op\<close> that \<^verbatim>\<open>lazy_split_op(split)\<close> returns in the batch loop
  (lines 174-182).  \<open>batches\<close> is the dict of split names to stream references,
  \<open>ops\<close> what \<^verbatim>\<open>self.step_ops()\<close> returned.
\<close>

definition lazy_split_op ::
  "('v, 'w) iterator \<Rightarrow> (string \<times> nat) list \<Rightarrow> ('v, 'w) fetch_op tree \<Rightarrow> nat \<Rightarrow> string
    \<Rightarrow> ('v, 'w) thunk" where
  "lazy_split_op self batches ops bstep split st =
     (let st1 = st\<lparr>cur_split := Some split\<rparr> in
      case map_of batches split of
        None \<Rightarrow> (Inl (KeyError split), st1)
      | Some s \<Rightarrow>
          (case in_world (stream_next self s) (log_event (Next split s) st1) of
             (Inl e, st2) \<Rightarrow> (Inl e, st2)
           | (Inr batch, st2) \<Rightarrow>
               (case make_feeds batch st2 of
                  (Inl e, st3) \<Rightarrow> (Inl e, st3)
                | (Inr feeds, st3) \<Rightarrow>
                    (let fetches = Dict [(''step_ops'', ops)] in
                     case run_hooks self bstep (Some fetches) (Some feeds) (Some batch)
                            None True False st3 of
                       (Inl e, st4) \<Rightarrow> (Inl e, st4)
                     | (Inr _, st4) \<Rightarrow> run fetches feeds st4))))"

text \<open>
  The closure of the per-split loop (lines 209-220): it sets \<^verbatim>\<open>active\<close> first and
  dispatches to the epoch hooks.
\<close>

definition lazy_split_op_epoch ::
  "('v, 'w) iterator \<Rightarrow> (string \<times> nat) list \<Rightarrow> ('v, 'w) fetch_op tree \<Rightarrow> nat \<Rightarrow> string
    \<Rightarrow> ('v, 'w) thunk" where
  "lazy_split_op_epoch self batches ops bstep split st =
     (let st1 = st\<lparr>active := True, cur_split := Some split\<rparr> in
      case map_of batches split of
        None \<Rightarrow> (Inl (KeyError split), st1)
      | Some s \<Rightarrow>
          (case in_world (stream_next self s) (log_event (Next split s) st1) of
             (Inl e, st2) \<Rightarrow> (Inl e, st2)
           | (Inr batch, st2) \<Rightarrow>
               (case make_feeds batch st2 of
                  (Inl e, st3) \<Rightarrow> (Inl e, st3)
                | (Inr feeds, st3) \<Rightarrow>
                    (let fetches = Dict [(''step_ops'', ops)] in
                     case run_hooks self bstep (Some fetches) (Some feeds) (Some batch)
                            None True True st3 of
                       (Inl e, st4) \<Rightarrow> (Inl e, st4)
                     | (Inr _, st4) \<Rightarrow> run fetches feeds st4))))"

text \<open>\<^verbatim>\<open>batches[split].reset()\<close> after the logger's line.\<close>

definition done_with ::
  "('v, 'w) iterator \<Rightarrow> string \<Rightarrow> nat \<Rightarrow> ('v, 'w) state \<Rightarrow> ('v, 'w) state" where
  "done_with self what s st =
     (let st1 = log_event (Info (''Done with '' @ what)) st;
          st2 = log_event (Reset s) st1
      in st2\<lparr>world := stream_reset self s (world st2)\<rparr>)"

text \<open>
  The batch loop (lines 170-196) over the values \<^verbatim>\<open>trange(num_steps)\<close> still has to
  yield.  One tick: the thunks of all splits go into the results dict, the hooks'
  \<^verbatim>\<open>after_step\<close> dispatch runs, the global step is incremented, and the loop is left
  when the train stream reports a new epoch or the step budget is reached.
\<close>

fun batch_loop ::
  "('v, 'w) iterator \<Rightarrow> (string \<times> nat) list \<Rightarrow> ('v, 'w) fetch_op tree \<Rightarrow> nat list
    \<Rightarrow> ('v, 'w) state \<Rightarrow> (exn + unit) \<times> ('v, 'w) state" where
  "batch_loop self batches ops [] st = (Inr (), st)"
| "batch_loop self batches ops (bstep # later) st =
     (let st1 = log_event (BatchIter bstep) (st\<lparr>batch_step := bstep\<rparr>);
          results =
            (global_step st1,
             map (\<lambda>split. (split, lazy_split_op self batches ops bstep split))
               (map fst batches))
      in
        case run_hooks self bstep None None None (Some results) False False st1 of
          (Inl e, st2) \<Rightarrow> (Inl e, st2)
        | (Inr _, st2) \<Rightarrow>
            (let st3 = increment_global_step self st2 in
             case map_of batches ''train'' of
               None \<Rightarrow> (Inl (KeyError ''train''), st3)
             | Some s \<Rightarrow>
                 if stream_is_new_epoch self s (world st3)
                    \<or> (case num_steps self of
                          None \<Rightarrow> False
                        | Some budget \<Rightarrow> global_step st3 \<ge> budget)
                 then (Inr (), done_with self ''epoch'' s st3)
                 else batch_loop self batches ops later st3))"

text \<open>
  Lines 169-196: \<^verbatim>\<open>num_steps = 0 if test_mode else len(batches["train"])\<close>, then the
  batch loop.
\<close>

definition batch_phase ::
  "('v, 'w) iterator \<Rightarrow> (string \<times> nat) list \<Rightarrow> ('v, 'w) fetch_op tree
    \<Rightarrow> ('v, 'w) state \<Rightarrow> (exn + unit) \<times> ('v, 'w) state" where
  "batch_phase self batches ops st =
     (if test_mode self then batch_loop self batches ops [0..<0] st
      else
        (case map_of batches ''train'' of
           None \<Rightarrow> (Inl (KeyError ''train''), st)
         | Some s \<Rightarrow> batch_loop self batches ops [0..<stream_len self s (world st)] st))"

text \<open>
  The per-split loop (lines 204-230): one thunk per tick, offered to the epoch
  hooks; the loop is left when the stream reports a new epoch or nobody invoked the
  thunk.
\<close>

fun split_loop ::
  "('v, 'w) iterator \<Rightarrow> (string \<times> nat) list \<Rightarrow> ('v, 'w) fetch_op tree \<Rightarrow> string \<Rightarrow> nat
    \<Rightarrow> nat list \<Rightarrow> ('v, 'w) state \<Rightarrow> (exn + unit) \<times> ('v, 'w) state" where
  "split_loop self batches ops split s [] st = (Inr (), st)"
| "split_loop self batches ops split s (bstep # later) st =
     (let st1 = log_event (SplitIter split bstep) (st\<lparr>batch_step := bstep\<rparr>);
          st2 = st1\<lparr>active := False\<rparr>;
          results =
            (global_step st2, [(split, lazy_split_op_epoch self batches ops bstep split)])
      in
        case run_hooks self bstep None None None (Some results) False True st2 of
          (Inl e, st3) \<Rightarrow> (Inl e, st3)
        | (Inr _, st3) \<Rightarrow>
            if stream_is_new_epoch self s (world st3) \<or> \<not> active st3
            then (Inr (), done_with self split s st3)
            else split_loop self batches ops split s later st3)"

text \<open>Lines 201-231: \<^verbatim>\<open>for split in batches\<close>, over the entries still to visit.\<close>

fun split_phase ::
  "('v, 'w) iterator \<Rightarrow> (string \<times> nat) list \<Rightarrow> ('v, 'w) fetch_op tree \<Rightarrow> nat
    \<Rightarrow> (string \<times> nat) list \<Rightarrow> ('v, 'w) state \<Rightarrow> (exn + unit) \<times> ('v, 'w) state" where
  "split_phase self batches ops estep [] st = (Inr (), st)"
| "split_phase self batches ops estep (entry # later) st =
     (case run_hooks self estep None None None None True True st of
        (Inl e, st1) \<Rightarrow> (Inl e, st1)
      | (Inr _, st1) \<Rightarrow>
          (case split_loop self batches ops (fst entry) (snd entry)
                  [0..<stream_len self (snd entry) (world st1)] st1 of
             (Inl e, st2) \<Rightarrow> (Inl e, st2)
           | (Inr _, st2) \<Rightarrow>
               (case run_hooks self estep None None None None False True st2 of
                  (Inl e, st3) \<Rightarrow> (Inl e, st3)
                | (Inr _, st3) \<Rightarrow> split_phase self batches ops estep later st3)))"

text \<open>The body of the epoch loop (lines 164-231) and the loop itself.\<close>

definition epoch_body ::
  "('v, 'w) iterator \<Rightarrow> (string \<times> nat) list \<Rightarrow> ('v, 'w) fetch_op tree \<Rightarrow> nat
    \<Rightarrow> ('v, 'w) state \<Rightarrow> (exn + unit) \<times> ('v, 'w) state" where
  "epoch_body self batches ops estep st =
     (let st1 = log_event (EpochIter estep) (st\<lparr>epoch_step := estep\<rparr>) in
      case run_hooks self estep None None None None True False st1 of
        (Inl e, st2) \<Rightarrow> (Inl e, st2)
      | (Inr _, st2) \<Rightarrow>
          (case batch_phase self batches ops st2 of
             (Inl e, st3) \<Rightarrow> (Inl e, st3)
           | (Inr _, st3) \<Rightarrow>
               (case run_hooks self estep None None None None False False st3 of
                  (Inl e, st4) \<Rightarrow> (Inl e, st4)
                | (Inr _, st4) \<Rightarrow> split_phase self batches ops estep batches st4)))"

fun epoch_loop ::
  "('v, 'w) iterator \<Rightarrow> (string \<times> nat) list \<Rightarrow> ('v, 'w) fetch_op tree \<Rightarrow> nat list
    \<Rightarrow> ('v, 'w) state \<Rightarrow> (exn + unit) \<times> ('v, 'w) state" where
  "epoch_loop self batches ops [] st = (Inr (), st)"
| "epoch_loop self batches ops (estep # later) st =
     (case epoch_body self batches ops estep st of
        (Inl e, st') \<Rightarrow> (Inl e, st')
      | (Inr _, st') \<Rightarrow> epoch_loop self batches ops later st')"

text \<open>
  Lines 154-159: the dict of splits.  With \<^verbatim>\<open>test_mode\<close> and no validation stream
  the validation entry becomes the train stream itself; entries that are \<^verbatim>\<open>None\<close>
  are dropped.
\<close>

definition select_batches ::
  "('v, 'w) iterator \<Rightarrow> nat \<Rightarrow> nat option \<Rightarrow> (string \<times> nat) list" where
  "select_batches self batch_iterator batch_iterator_validation =
     (let batches = [(''train'', Some batch_iterator),
                     (''validation'', batch_iterator_validation)];
          batches' =
            (if test_mode self \<and> batch_iterator_validation = None
             then [(''train'', Some batch_iterator), (''validation'', Some batch_iterator)]
             else batches)
      in concat (map (\<lambda>(s, b). case b of None \<Rightarrow> [] | Some b' \<Rightarrow> [(s, b')]) batches'))"

text \<open>
  \<^verbatim>\<open>_iterate\<close>.  \<^verbatim>\<open>validation_frequency\<close> is computed and never used; the progress
  bar descriptions have no effect on the loop.
\<close>

definition private_iterate ::
  "('v, 'w) iterator \<Rightarrow> nat \<Rightarrow> nat option \<Rightarrow> ('v, 'w) state
    \<Rightarrow> (exn + unit) \<times> ('v, 'w) state" where
  "private_iterate self batch_iterator batch_iterator_validation st =
     (case in_world (step_ops self) st of
        (Inl e, st1) \<Rightarrow> (Inl e, st1)
      | (Inr ops, st1) \<Rightarrow>
          (let st2 =
                 (if test_mode self \<and> batch_iterator_validation = None
                  then log_event
                         (Warning ''No validation batch specified, defaulting to train batch.'')
                         st1
                  else st1);
               batches = select_batches self batch_iterator batch_iterator_validation;
               n = (if test_mode self then 1 else num_epochs self)
           in epoch_loop self batches ops [0..<nat n] st2))"

text \<open>
  \<^verbatim>\<open>iterate\<close>: \<^verbatim>\<open>except Exception as e: self._handle_exception(e); raise e\<close>.  An
  exception raised by \<^verbatim>\<open>_handle_exception\<close> itself leaves the handler in its place.
\<close>

definition iterate ::
  "('v, 'w) iterator \<Rightarrow> nat \<Rightarrow> nat option \<Rightarrow> ('v, 'w) state
    \<Rightarrow> (exn + unit) \<times> ('v, 'w) state" where
  "iterate self batch_iterator batch_iterator_validation st =
     (case private_iterate self batch_iterator batch_iterator_validation st of
        (Inr u, st1) \<Rightarrow> (Inr u, st1)
      | (Inl e, st1) \<Rightarrow>
          if is_Exception e then
            (case private_handle_exception self e st1 of
               (Inl e', st2) \<Rightarrow> (Inl e', st2)
             | (Inr _, st2) \<Rightarrow> (Inl e, st2))
          else (Inl e, st1))"

section \<open>CelebA: preparation and loading\<close>

text \<open>
  The dataset layer works on a file system and on downloaded files; \<open>'d\<close> is that
  outside world.  The helpers of \<^verbatim>\<open>edflow.datasets.utils\<close>, the \<^verbatim>\<open>pandas\<close> readers and
  \<^verbatim>\<open>pickle\<close> are not part of the sources and are parameters: \<^verbatim>\<open>is_prepared\<close>,
  \<^verbatim>\<open>prompt_download\<close>, the test \<^verbatim>\<open>os.path.exists(os.path.join(root, CONTENT_DIR))\<close>,
  \<^verbatim>\<open>unpack\<close>, \<^verbatim>\<open>read_csv\<close> on each of the three label files (the rows of
  \<^verbatim>\<open>list_eval_partition.txt\<close> as pairs of image id and partition, the header and the
  rows of \<^verbatim>\<open>list_attr_celeba.txt\<close> as first cell and remaining cells, the rows of
  \<^verbatim>\<open>identity_CelebA.txt\<close>), \<^verbatim>\<open>pickle.dump\<close>, \<^verbatim>\<open>mark_prepared\<close> and \<^verbatim>\<open>pickle.load\<close>.
  Logger calls of this file are left out.
\<close>

record celeba_data =
  fname :: "string list"
  partition_col :: "int list"
  identity_col :: "int list"
  attributes :: "int list list"

record 'd edu =
  is_prepared :: "'d \<Rightarrow> bool"
  prompt_download :: "string \<Rightarrow> 'd \<Rightarrow> (exn + string) \<times> 'd"
  content_dir_exists :: "'d \<Rightarrow> bool"
  unpack :: "string \<Rightarrow> 'd \<Rightarrow> (exn + unit) \<times> 'd"
  read_eval_partition :: "'d \<Rightarrow> exn + (string \<times> int) list"
  read_attr :: "'d \<Rightarrow> exn + (string list \<times> (string \<times> int list) list)"
  read_identity :: "'d \<Rightarrow> exn + (string \<times> int) list"
  pickle_dump :: "celeba_data \<Rightarrow> 'd \<Rightarrow> (exn + unit) \<times> 'd"
  mark_prepared :: "'d \<Rightarrow> (exn + unit) \<times> 'd"
  pickle_load :: "'d \<Rightarrow> exn + celeba_data"

definition FILES :: "string list" where
  "FILES = [''img_align_celeba.zip'', ''list_eval_partition.txt'',
            ''identity_CelebA.txt'', ''list_attr_celeba.txt'']"

definition CONTENT_DIR :: string where
  "CONTENT_DIR = ''img_align_celeba''"

text \<open>\<^verbatim>\<open>for v in self.FILES[1:]: local_files[v] = edu.prompt_download(v, ...)\<close>.\<close>

fun download_each :: "'d edu \<Rightarrow> string list \<Rightarrow> 'd \<Rightarrow> (exn + unit) \<times> 'd" where
  "download_each api [] d = (Inr (), d)"
| "download_each api (v # vs) d =
     (case prompt_download api v d of
        (Inl e, d') \<Rightarrow> (Inl e, d')
      | (Inr _, d') \<Rightarrow> download_each api vs d')"

text \<open>Lines 39-48 of \<^verbatim>\<open>_prepare\<close>: the archive, its extraction, the label files.\<close>

definition download_files :: "'d edu \<Rightarrow> 'd \<Rightarrow> (exn + unit) \<times> 'd" where
  "download_files api d =
     (case prompt_download api (hd FILES) d of
        (Inl e, d1) \<Rightarrow> (Inl e, d1)
      | (Inr zip_file, d1) \<Rightarrow>
          (case (if \<not> content_dir_exists api d1 then unpack api zip_file d1
                 else (Inr (), d1)) of
             (Inl e, d2) \<Rightarrow> (Inl e, d2)
           | (Inr _, d2) \<Rightarrow> download_each api (tl FILES) d2))"

text \<open>
  \<^verbatim>\<open>os.path.join\<close> of two components on a POSIX system: a second component that
  starts with a slash replaces the first; otherwise the two are joined by one slash,
  which is left out when the first is empty or ends with one.
\<close>

definition os_path_join :: "string \<Rightarrow> string \<Rightarrow> string" where
  "os_path_join a b =
     (if b \<noteq> [] \<and> hd b = CHR ''/'' then b
      else if a = [] \<or> last a = CHR ''/'' then a @ b
      else a @ ''/'' @ b)"

text \<open>
  \<^verbatim>\<open>_prepare\<close>.  \<^verbatim>\<open>len\<close> of the two arrays is the number of rows of the two tables;
  the check of line 63 comes before the identity file is read and before anything
  is written.
\<close>

definition private_prepare :: "'d edu \<Rightarrow> 'd \<Rightarrow> (exn + unit) \<times> 'd" where
  "private_prepare api d =
     (if \<not> is_prepared api d then
        (case download_files api d of
           (Inl e, d1) \<Rightarrow> (Inl e, d1)
         | (Inr _, d1) \<Rightarrow>
             (case read_eval_partition api d1 of
                Inl e \<Rightarrow> (Inl e, d1)
              | Inr df_eval_partition \<Rightarrow>
                  (let list_eval_partition = map snd df_eval_partition;
                       fnames = map fst df_eval_partition
                   in
                     case read_attr api d1 of
                       Inl e \<Rightarrow> (Inl e, d1)
                     | Inr df_attr_celeba \<Rightarrow>
                         (let list_attr_celeba = map snd (snd df_attr_celeba) in
                          if \<not> (length list_attr_celeba = length list_eval_partition)
                          then (Inl (ValueError ''data files do not match''), d1)
                          else
                            (case read_identity api d1 of
                               Inl e \<Rightarrow> (Inl e, d1)
                             | Inr df_identities \<Rightarrow>
                                 (let data =
                                        \<lparr>fname = map (\<lambda>s. os_path_join CONTENT_DIR s) fnames,
                                         partition_col = list_eval_partition,
                                         identity_col = map snd df_identities,
                                         attributes = list_attr_celeba\<rparr>
                                  in
                                    case pickle_dump api data d1 of
                                      (Inl e, d2) \<Rightarrow> (Inl e, d2)
                                    | (Inr _, d2) \<Rightarrow> mark_prepared api d2))))))
      else (Inr (), d))"

text \<open>
  \<^verbatim>\<open>_get_split\<close> and \<^verbatim>\<open>_load\<close>.  The configuration is its \<^verbatim>\<open>test_mode\<close> entry and the
  \<^verbatim>\<open>split\<close> entry of the dataset's own section when there is one.  Indexing an array
  with \<^verbatim>\<open>split_indices\<close> raises \<^verbatim>\<open>IndexError\<close> on an index past its end.
\<close>

record celeba_config =
  cfg_test_mode :: bool
  cfg_split :: "string option"

record celeba =
  labels :: celeba_data
  split_indices :: "nat list"
  ds_length :: nat

definition private_get_split :: "celeba_config \<Rightarrow> string" where
  "private_get_split config =
     (let split = (if cfg_test_mode config then ''test'' else ''train'') in
      case cfg_split config of None \<Rightarrow> split | Some s \<Rightarrow> s)"

definition np_where_eq :: "int list \<Rightarrow> int \<Rightarrow> nat list" where
  "np_where_eq xs k = filter (\<lambda>i. xs ! i = k) [0..<length xs]"

definition np_take :: "'a list \<Rightarrow> nat list \<Rightarrow> exn + 'a list" where
  "np_take xs idx =
     (if list_all (\<lambda>i. i < length xs) idx then Inr (map (\<lambda>i. xs ! i) idx)
      else Inl IndexError)"

definition private_load :: "'d edu \<Rightarrow> celeba_config \<Rightarrow> 'd \<Rightarrow> exn + celeba" where
  "private_load api config d =
     (case pickle_load api d of
        Inl e \<Rightarrow> Inl e
      | Inr data \<Rightarrow>
          (let split = private_get_split config in
           if split \<notin> set [''train'', ''test'', ''val'']
           then Inl AssertionError
           else
             (let idx = np_where_eq (partition_col data)
                          (if split = ''train'' then 0 else if split = ''val'' then 1 else 2)
              in
                case np_take (fname data) idx of
                  Inl e \<Rightarrow> Inl e
                | Inr fs \<Rightarrow>
                    (case np_take (partition_col data) idx of
                       Inl e \<Rightarrow> Inl e
                     | Inr ps \<Rightarrow>
                         (case np_take (identity_col data) idx of
                            Inl e \<Rightarrow> Inl e
                          | Inr ids \<Rightarrow>
                              (case np_take (attributes data) idx of
                                 Inl e \<Rightarrow> Inl e
                               | Inr ats \<Rightarrow>
                                   Inr \<lparr>labels = \<lparr>fname = fs, partition_col = ps,
                                                  identity_col = ids, attributes = ats\<rparr>,
                                        split_indices = idx,
                                        ds_length = length fs\<rparr>))))))"

text \<open>\<^verbatim>\<open>CelebA.__init__\<close>: \<^verbatim>\<open>self._prepare()\<close>, then \<^verbatim>\<open>self._load()\<close>.\<close>

definition celeba_init :: "'d edu \<Rightarrow> celeba_config \<Rightarrow> 'd \<Rightarrow> (exn + celeba) \<times> 'd" where
  "celeba_init api config d =
     (case private_prepare api d of
        (Inl e, d1) \<Rightarrow> (Inl e, d1)
      | (Inr _, d1) \<Rightarrow> (private_load api config d1, d1))"

section \<open>Reading traces\<close>

text \<open>The events a run has added to the trace, and the kinds of event.\<close>

definition new_trace :: "('v, 'w) state \<Rightarrow> ('v, 'w) state \<Rightarrow> (int \<times> 'v event) list" where
  "new_trace st st' = drop (length (trace st)) (trace st')"

fun is_tick :: "'v event \<Rightarrow> bool" where
  "is_tick (BatchIter _) = True"
| "is_tick _ = False"


fun is_next :: "'v event \<Rightarrow> bool" where
  "is_next (Next _ _) = True"
| "is_next _ = False"

fun is_run :: "'v event \<Rightarrow> bool" where
  "is_run (Run _) = True"
| "is_run _ = False"

fun is_reset :: "'v event \<Rightarrow> bool" where
  "is_reset (Reset _) = True"
| "is_reset _ = False"

fun is_call :: "callback \<Rightarrow> 'v event \<Rightarrow> bool" where
  "is_call cb (HookCall _ _ cb' _) = (cb = cb')"
| "is_call cb _ = False"

text \<open>What a hook dispatch and the thunks can add: stream pulls, runs, hook calls.\<close>

fun hook_level :: "'v event \<Rightarrow> bool" where
  "hook_level (Next _ _) = True"
| "hook_level (Run _) = True"
| "hook_level (HookCall _ _ _ _) = True"
| "hook_level _ = False"

text \<open>What the per-split phase can add on top of that.\<close>

fun split_level :: "'v event \<Rightarrow> bool" where
  "split_level (SplitIter _ _) = True"
| "split_level (Info _) = True"
| "split_level (Reset _) = True"
| "split_level ev = hook_level ev"

definition count_events :: "('v event \<Rightarrow> bool) \<Rightarrow> (int \<times> 'v event) list \<Rightarrow> nat" where
  "count_events P tr = length (filter (\<lambda>x. P (snd x)) tr)"

definition tick_stamps :: "(int \<times> 'v event) list \<Rightarrow> int list" where
  "tick_stamps tr = map fst (filter (\<lambda>x. is_tick (snd x)) tr)"

text \<open>
  \<open>quiet P st st'\<close>: from \<open>st\<close> to \<open>st'\<close> the global step has not changed and only events
  of kind \<open>P\<close> have been appended to the trace.
\<close>

definition quiet ::
  "('v event \<Rightarrow> bool) \<Rightarrow> ('v, 'w) state \<Rightarrow> ('v, 'w) state \<Rightarrow> bool" where
  "quiet P st st' \<longleftrightarrow>
     global_step st' = global_step st
     \<and> (\<exists>new. trace st' = trace st @ new
            \<and> list_all (\<lambda>x. fst x = global_step st \<and> P (snd x)) new)"

definition thunk_quiet :: "('v event \<Rightarrow> bool) \<Rightarrow> ('v, 'w) thunk \<Rightarrow> bool" where
  "thunk_quiet P split_op \<longleftrightarrow> (\<forall>st r st'. split_op st = (r, st') \<longrightarrow> quiet P st st')"

definition results_quiet ::
  "('v event \<Rightarrow> bool) \<Rightarrow> (int \<times> (string \<times> ('v, 'w) thunk) list) option \<Rightarrow> bool" where
  "results_quiet P results \<longleftrightarrow>
     (case results of
        None \<Rightarrow> True
      | Some res \<Rightarrow> list_all (\<lambda>entry. thunk_quiet P (snd entry)) (snd res))"

text \<open>
  \<open>stamped g g' new\<close>: the events \<open>new\<close> were logged while the global step went from
  \<open>g\<close> to \<open>g'\<close>: their stamps are sorted and lie between \<open>g\<close> and \<open>g'\<close>, the \<open>k\<close>-th
  tick among them started at \<open>g + k\<close>, and the global step has grown by at most the
  number of ticks.  \<open>advances\<close>: the run from \<open>st\<close> to \<open>st'\<close> has appended such events.
  \<open>completes\<close>: moreover the global step has grown by exactly the number of ticks.
  \<open>proceeds r\<close>: the run advances, and completes when it returned normally.
\<close>

definition stamped :: "int \<Rightarrow> int \<Rightarrow> (int \<times> 'v event) list \<Rightarrow> bool" where
  "stamped g g' new \<longleftrightarrow>
     sorted (map fst new)
     \<and> list_all (\<lambda>x. g \<le> fst x \<and> fst x \<le> g') new
     \<and> g \<le> g'
     \<and> tick_stamps new = map (\<lambda>k. g + int k) [0..<length (tick_stamps new)]
     \<and> g' \<le> g + int (length (tick_stamps new))"

definition advances :: "('v, 'w) state \<Rightarrow> ('v, 'w) state \<Rightarrow> bool" where
  "advances st st' \<longleftrightarrow>
     (\<exists>new. trace st' = trace st @ new \<and> stamped (global_step st) (global_step st') new)"

definition completes :: "('v, 'w) state \<Rightarrow> ('v, 'w) state \<Rightarrow> bool" where
  "completes st st' \<longleftrightarrow>
     (\<exists>new. trace st' = trace st @ new \<and> stamped (global_step st) (global_step st') new
        \<and> global_step st' = global_step st + int (length (tick_stamps new)))"

definition proceeds :: "exn + unit \<Rightarrow> ('v, 'w) state \<Rightarrow> ('v, 'w) state \<Rightarrow> bool" where
  "proceeds r st st' \<longleftrightarrow> advances st st' \<and> (r = Inr () \<longrightarrow> completes st st')"

text \<open>The method of the hook that a dispatch of \<^verbatim>\<open>run_hooks\<close> calls.\<close>

definition dispatched :: "bool \<Rightarrow> bool \<Rightarrow> callback" where
  "dispatched before is_step =
     (if before then (if is_step then BeforeStep else BeforeEpoch)
      else (if is_step then AfterStep else AfterEpoch))"

text \<open>What a thunk can add: a pull, \<^verbatim>\<open>before_step\<close> calls, a run.\<close>

fun thunk_level :: "'v event \<Rightarrow> bool" where
  "thunk_level (Next _ _) = True"
| "thunk_level (Run _) = True"
| "thunk_level (HookCall _ _ cb _) = (cb = BeforeStep)"
| "thunk_level _ = False"



section \<open>Example collaborators\<close>

text \<open>
  A train stream of two batches whose state is its position and its new-epoch flag:
  the flag is set by the pull that serves the last batch.  Batch \<open>p\<close> is
  \<^verbatim>\<open>{"x": leaf p}\<close>.  One fetch op that returns leaf 0.
\<close>

type_synonym ex_world = "nat \<times> bool"

definition ex_hook :: "(nat, ex_world) hook" where
  "ex_hook =
     \<lparr>before_epoch = (\<lambda>i w. (Inr (), w)),
      after_epoch = (\<lambda>i w. (Inr (), w)),
      before_step = (\<lambda>i fetches feeds batch w. (Inr (), w)),
      after_step = (\<lambda>i results w. Return w),
      at_exception = (\<lambda>e w. (Inr (), w))\<rparr>"

text \<open>A hook whose \<^verbatim>\<open>after_step\<close> is \<^verbatim>\<open>results["train"]()\<close>, nothing caught.\<close>

definition pulling_hook :: "(nat, ex_world) hook" where
  "pulling_hook =
     ex_hook\<lparr>after_step :=
       (\<lambda>i results w. Invoke w ''train''
          (\<lambda>r w'. case r of Inl e \<Rightarrow> Raise e w' | Inr _ \<Rightarrow> Return w'))\<rparr>"

text \<open>The same with two calls of the thunk in one \<^verbatim>\<open>after_step\<close>.\<close>

definition pulling_twice_hook :: "(nat, ex_world) hook" where
  "pulling_twice_hook =
     ex_hook\<lparr>after_step :=
       (\<lambda>i results w. Invoke w ''train''
          (\<lambda>r w'. case r of
             Inl e \<Rightarrow> Raise e w'
           | Inr _ \<Rightarrow> Invoke w' ''train''
               (\<lambda>r' w''. case r' of Inl e \<Rightarrow> Raise e w'' | Inr _ \<Rightarrow> Return w'')))\<rparr>"

definition ex_iterator :: "(nat, ex_world) hook list \<Rightarrow> (nat, ex_world) iterator" where
  "ex_iterator hs =
     \<lparr>test_mode = False, num_steps = None, num_epochs = 1, hook_freq = 1,
      hooks = hs, epoch_hooks = [],
      step_ops = (\<lambda>w. (Inr (Leaf (\<lambda>feeds w'. (Inr 0, w'))), w)),
      stream_next =
        (\<lambda>s w. (Inr (Dict [(''x'', Leaf (fst w))]),
                 (if Suc (fst w) = 2 then (0, True) else (Suc (fst w), False)))),
      stream_is_new_epoch = (\<lambda>s w. snd w),
      stream_reset = (\<lambda>s w. (0, False)),
      stream_len = (\<lambda>s w. 2)\<rparr>"

definition ex_state :: "(nat, ex_world) state" where
  "ex_state =
     \<lparr>global_step = 0, batch_step = 0, epoch_step = 0, cur_split = None, active = False,
      world = (0, False), trace = []\<rparr>"

text \<open>
  Hooks that raise: in \<^verbatim>\<open>before_step\<close>; in \<^verbatim>\<open>at_exception\<close>; in \<^verbatim>\<open>before_epoch\<close> and
  again in \<^verbatim>\<open>at_exception\<close>.
\<close>

definition failing_step_hook :: "(nat, ex_world) hook" where
  "failing_step_hook =
     ex_hook\<lparr>before_step := (\<lambda>i fetches feeds batch w. (Inl (HookError ''boom''), w))\<rparr>"

definition failing_exception_hook :: "(nat, ex_world) hook" where
  "failing_exception_hook =
     ex_hook\<lparr>at_exception := (\<lambda>e w. (Inl (HookError ''cleanup failed''), w))\<rparr>"

definition failing_epoch_hook :: "(nat, ex_world) hook" where
  "failing_epoch_hook =
     failing_exception_hook\<lparr>before_epoch := (\<lambda>i w. (Inl (HookError ''boom''), w))\<rparr>"

text \<open>
  Leaves as references into a heap of array data (a list of cells): a fetch op that
  overwrites the data behind the leaf \<^verbatim>\<open>image\<close> of the feed payload, and one that
  copies the data it finds there into cell 1.
\<close>

fun leaf_at :: "string \<Rightarrow> 'v tree \<Rightarrow> 'v option" where
  "leaf_at k (Dict kvs) = (case map_of kvs k of Some (Leaf a) \<Rightarrow> Some a | _ \<Rightarrow> None)"
| "leaf_at k _ = None"

definition overwrite_op :: "(nat, int list) fetch_op" where
  "overwrite_op feeds w =
     (case leaf_at ''image'' feeds of
        None \<Rightarrow> (Inl (KeyError ''image''), w)
      | Some a \<Rightarrow> (Inr a, w[a := 99]))"

definition copy_op :: "(nat, int list) fetch_op" where
  "copy_op feeds w =
     (case leaf_at ''image'' feeds of
        None \<Rightarrow> (Inl (KeyError ''image''), w)
      | Some a \<Rightarrow> (Inr 1, w[1 := w ! a]))"

definition heap_state :: "(nat, int list) state" where
  "heap_state =
     \<lparr>global_step = 0, batch_step = 0, epoch_step = 0, cur_split = None, active = False,
      world = [5, 0], trace = []\<rparr>"

text \<open>
  A dataset directory that is not prepared, whose partition table has two rows and
  whose attribute table has one.  The outside world counts what has been done to it:
  1 for a download, 100 for the dump, 1000 for the mark.
\<close>

definition ex_edu :: "nat edu" where
  "ex_edu =
     \<lparr>is_prepared = (\<lambda>d. False),
      prompt_download = (\<lambda>f d. (Inr f, Suc d)),
      content_dir_exists = (\<lambda>d. True),
      unpack = (\<lambda>z d. (Inr (), d)),
      read_eval_partition = (\<lambda>d. Inr [(''000001.jpg'', 0), (''000002.jpg'', 1)]),
      read_attr = (\<lambda>d. Inr ([''image_id'', ''Smiling''], [(''000001.jpg'', [1])])),
      read_identity = (\<lambda>d. Inr [(''000001.jpg'', 7), (''000002.jpg'', 8)]),
      pickle_dump = (\<lambda>data d. (Inr (), d + 100)),
      mark_prepared = (\<lambda>d. (Inr (), d + 1000)),
      pickle_load = (\<lambda>d. Inl (KeyError ''data.p''))\<rparr>"

section \<open>Basic facts\<close>

lemma log_event_simps [simp]:
  "global_step (log_event ev st) = global_step st"
  "trace (log_event ev st) = trace st @ [(global_step st, ev)]"
  "world (log_event ev st) = world st"
  "active (log_event ev st) = active st"
  "batch_step (log_event ev st) = batch_step st"
  "epoch_step (log_event ev st) = epoch_step st"
  "cur_split (log_event ev st) = cur_split st"
  by (simp_all add: log_event_def)

lemma in_world_result:
  "in_world f st = (r, st') \<Longrightarrow> st' = st\<lparr>world := snd (f (world st))\<rparr> \<and> r = fst (f (world st))"
  by (auto simp: in_world_def split: prod.splits)

lemma quiet_refl [simp]: "quiet P st st"
  by (simp add: quiet_def)

lemma quiet_trans: "quiet P a b \<Longrightarrow> quiet P b c \<Longrightarrow> quiet P a c"
  by (auto simp: quiet_def)

lemma quiet_mono: "quiet P a b \<Longrightarrow> (\<And>ev. P ev \<Longrightarrow> Q ev) \<Longrightarrow> quiet Q a b"
  by (auto simp: quiet_def list_all_iff)

lemma quiet_log: "P ev \<Longrightarrow> quiet P st (log_event ev st)"
  by (simp add: quiet_def)

lemma quiet_fields [simp]:
  "quiet P st (st\<lparr>world := w\<rparr>)"
  "quiet P st (st\<lparr>active := a\<rparr>)"
  "quiet P st (st\<lparr>cur_split := c\<rparr>)"
  "quiet P st (st\<lparr>batch_step := b\<rparr>)"
  "quiet P st (st\<lparr>epoch_step := n\<rparr>)"
  by (simp_all add: quiet_def)

lemma quiet_in_world: "in_world f st = (r, st') \<Longrightarrow> quiet P st st'"
  by (auto dest!: in_world_result)

lemma for_each_hook_quiet:
  assumes "\<And>pos hook st r st'. body pos hook st = (r, st') \<Longrightarrow> quiet P st st'"
  shows "for_each_hook body pos hs st = (r, st') \<Longrightarrow> quiet P st st'"
proof (induction hs arbitrary: pos st)
  case Nil
  then show ?case by simp
next
  case (Cons h hs)
  obtain r1 st1 where b: "body pos h st = (r1, st1)" by (cases "body pos h st")
  have q1: "quiet P st st1" using assms b by blast
  show ?case
  proof (cases r1)
    case (Inl e)
    with Cons.prems b q1 show ?thesis by simp
  next
    case (Inr u)
    with Cons.prems b have "for_each_hook body (Suc pos) hs st1 = (r, st')" by simp
    then have "quiet P st1 st'" by (rule Cons.IH)
    with q1 show ?thesis by (rule quiet_trans)
  qed
qed

lemma run_action_quiet:
  assumes "list_all (\<lambda>entry. thunk_quiet P (snd entry)) thunks"
  shows "run_action a no_results thunks st = (r, st') \<Longrightarrow> quiet P st st'"
proof (induction a arbitrary: st)
  case (Return w)
  then show ?case by auto
next
  case (Raise e w)
  then show ?case by auto
next
  case (Invoke w s k)
  show ?case
  proof (cases "no_results \<or> s = ''global_step''")
    case True
    with Invoke.prems
    have "run_action (k (Inl TypeError) w) no_results thunks (st\<lparr>world := w\<rparr>) = (r, st')"
      by simp
    then have "quiet P (st\<lparr>world := w\<rparr>) st'" by (rule Invoke.IH[OF rangeI rangeI])
    then show ?thesis by (rule quiet_trans[rotated]) simp
  next
    case False
    show ?thesis
    proof (cases "map_of thunks s")
      case None
      with False Invoke.prems
      have "run_action (k (Inl (KeyError s)) w) no_results thunks (st\<lparr>world := w\<rparr>) = (r, st')"
        by simp
      then have "quiet P (st\<lparr>world := w\<rparr>) st'" by (rule Invoke.IH[OF rangeI rangeI])
      then show ?thesis by (rule quiet_trans[rotated]) simp
    next
      case (Some th)
      obtain r1 st1 where t: "th (st\<lparr>world := w\<rparr>) = (r1, st1)" by (cases "th (st\<lparr>world := w\<rparr>)")
      from assms map_of_SomeD[OF Some] have "thunk_quiet P th"
        by (auto simp: list_all_iff)
      with t have q1: "quiet P (st\<lparr>world := w\<rparr>) st1"
        by (auto simp: thunk_quiet_def)
      from False Some t Invoke.prems
      have "run_action (k r1 (world st1)) no_results thunks st1 = (r, st')" by simp
      then have "quiet P st1 st'" by (rule Invoke.IH[OF rangeI rangeI])
      with q1 have "quiet P (st\<lparr>world := w\<rparr>) st'" by (rule quiet_trans)
      then show ?thesis by (rule quiet_trans[rotated]) simp
    qed
  qed
qed


lemma walk_list_id:
  assumes "\<And>t s. t \<in> set ts \<Longrightarrow> walk f t s = (Inr t, s)"
  shows "walk_list f ts s = (Inr ts, s)"
  using assms by (induction ts arbitrary: s) auto

lemma walk_items_id:
  assumes "\<And>kv s. kv \<in> set kvs \<Longrightarrow> walk f (snd kv) s = (Inr (snd kv), s)"
  shows "walk_items f kvs s = (Inr kvs, s)"
  using assms by (induction kvs arbitrary: s) auto

lemma walk_id: "walk (\<lambda>val s'. (Inr val, s')) t s = (Inr t, s)"
proof (induction t arbitrary: s)
  case (Leaf x)
  show ?case by simp
next
  case (Dict kvs)
  have "walk_items (\<lambda>val s'. (Inr val, s')) kvs s = (Inr kvs, s)"
  proof (rule walk_items_id)
    fix kv :: "string \<times> 'a tree" and s' :: 'b
    assume "kv \<in> set kvs"
    moreover have "snd kv \<in> Basic_BNFs.snds kv" by (cases kv) simp
    ultimately show "walk (\<lambda>val s'. (Inr val, s')) (snd kv) s' = (Inr (snd kv), s')"
      by (rule Dict.IH)
  qed
  then show ?case by simp
next
  case (Seq ts)
  have "walk_list (\<lambda>val s'. (Inr val, s')) ts s = (Inr ts, s)"
    by (rule walk_list_id) (auto intro: Seq.IH)
  then show ?case by simp
qed

lemma make_feeds_id: "make_feeds batch s = (Inr batch, s)"
  by (simp add: make_feeds_def walk_id)

lemma run_trace:
  "run fetches feeds st = (r, st') \<Longrightarrow>
     trace st' = trace st @ [(global_step st, Run feeds)] \<and> global_step st' = global_step st"
  by (auto simp: run_def dest!: in_world_result)

lemma run_quiet: "run fetches feeds st = (r, st') \<Longrightarrow> P (Run feeds) \<Longrightarrow> quiet P st st'"
  by (auto simp: quiet_def dest!: run_trace)

lemma call_hook_trace:
  assumes "before \<or> \<not> is_step \<or> results_quiet P results"
    and "call_hook index fetches feeds batch results before is_step ehs pos hook st = (r, st')"
  shows "\<exists>nested. trace st' = trace st
            @ (global_step st, HookCall ehs pos (dispatched before is_step) index) # nested
          \<and> list_all (\<lambda>x. fst x = global_step st \<and> P (snd x)) nested
          \<and> global_step st' = global_step st"
proof (cases "\<not> before \<and> is_step")
  case False
  with assms(2) show ?thesis
    by (auto simp: call_hook_def dispatched_def dest!: in_world_result split: if_splits)
next
  case True
  define st1 where "st1 = log_event (HookCall ehs pos AfterStep index) st"
  define ths where "ths = (case results of None \<Rightarrow> [] | Some res \<Rightarrow> snd res)"
  have ths: "list_all (\<lambda>entry. thunk_quiet P (snd entry)) ths"
    using assms(1) True by (auto simp: ths_def results_quiet_def split: option.splits)
  from True assms(2) have "run_action
      (after_step hook index (map_option (\<lambda>r. (fst r, map fst (snd r))) results) (world st1))
      (Option.is_none results) ths st1 = (r, st')"
    by (simp add: call_hook_def st1_def ths_def Let_def)
  then have "quiet P st1 st'" by (rule run_action_quiet[OF ths])
  with True show ?thesis
    by (auto simp: quiet_def st1_def dispatched_def)
qed

lemma call_hook_quiet:
  assumes "before \<or> \<not> is_step \<or> results_quiet P results"
    and "call_hook index fetches feeds batch results before is_step ehs pos hook st = (r, st')"
    and "P (HookCall ehs pos (dispatched before is_step) index)"
  shows "quiet P st st'"
  using call_hook_trace[OF assms(1,2)] assms(3) by (auto simp: quiet_def)

lemma run_hooks_quiet_gen:
  assumes "before \<or> results_quiet P results"
    and "run_hooks self index fetches feeds batch results before ehs st = (r, st')"
    and "\<And>pos. P (HookCall ehs pos
           (dispatched before ((\<not> Option.is_none fetches \<and> \<not> Option.is_none feeds)
                                \<or> \<not> Option.is_none results)) index)"
  shows "quiet P st st'"
proof -
  let ?is_step = "(\<not> Option.is_none fetches \<and> \<not> Option.is_none feeds)
                   \<or> \<not> Option.is_none results"
  have body: "\<And>pos hook st r st'.
      call_hook index fetches feeds batch results before ?is_step ehs pos hook st = (r, st')
      \<Longrightarrow> quiet P st st'"
  proof -
    fix pos hook st r st'
    assume c: "call_hook index fetches feeds batch results before ?is_step ehs pos hook st = (r, st')"
    from assms(1) have "before \<or> \<not> ?is_step \<or> results_quiet P results" by blast
    then show "quiet P st st'" using c assms(3) by (rule call_hook_quiet)
  qed
  from assms(2) show ?thesis
    by (auto simp: run_hooks_def Let_def split: if_splits
             intro: for_each_hook_quiet[where P = P, OF body])
qed

lemma run_hooks_quiet:
  assumes "before \<or> results_quiet P results"
    and "run_hooks self index fetches feeds batch results before ehs st = (r, st')"
    and "\<And>ev. hook_level ev \<Longrightarrow> P ev"
  shows "quiet P st st'"
  using assms(1,2) by (rule run_hooks_quiet_gen) (simp add: assms(3))

lemma dispatch_trace:
  assumes "before \<or> \<not> is_step \<or> results_quiet P results"
    and "\<And>ev. P ev \<Longrightarrow> \<not> is_call (dispatched before is_step) ev"
  shows "for_each_hook (call_hook index fetches feeds batch results before is_step ehs) pos hs st
           = (r, st') \<Longrightarrow>
         \<exists>new k. trace st' = trace st @ new \<and> global_step st' = global_step st
           \<and> k \<le> length hs \<and> (r = Inr () \<longrightarrow> k = length hs) \<and> (hs \<noteq> [] \<longrightarrow> 0 < k)
           \<and> filter (\<lambda>x. is_call (dispatched before is_step) (snd x)) new
               = map (\<lambda>i. (global_step st, HookCall ehs i (dispatched before is_step) index))
                   [pos..<pos + k]
           \<and> list_all (\<lambda>x. P (snd x) \<or> is_call (dispatched before is_step) (snd x)) new"
proof (induction hs arbitrary: pos st)
  case Nil
  then show ?case by auto
next
  case (Cons h hs)
  let ?cb = "dispatched before is_step"
  obtain r1 st1 where c: "call_hook index fetches feeds batch results before is_step ehs pos h st
      = (r1, st1)" by (cases "call_hook index fetches feeds batch results before is_step ehs pos h st")
  from call_hook_trace[OF assms(1) c] obtain nested where
    n: "trace st1 = trace st @ (global_step st, HookCall ehs pos ?cb index) # nested"
       "list_all (\<lambda>x. fst x = global_step st \<and> P (snd x)) nested"
       "global_step st1 = global_step st" by blast
  from n(2) assms(2) have fn: "filter (\<lambda>x. is_call ?cb (snd x)) nested = []"
    by (auto simp: list_all_iff filter_empty_conv)
  from n(2) have pn: "list_all (\<lambda>x. P (snd x) \<or> is_call ?cb (snd x)) nested"
    by (auto simp: list_all_iff)
  show ?case
  proof (cases r1)
    case (Inl e)
    with Cons.prems c have "r = Inl e" "st' = st1" by simp_all
    with n fn pn show ?thesis
      by (intro exI[of _ "(global_step st, HookCall ehs pos ?cb index) # nested"] exI[of _ 1])
        simp
  next
    case (Inr u)
    with Cons.prems c have
      "for_each_hook (call_hook index fetches feeds batch results before is_step ehs) (Suc pos) hs st1
         = (r, st')" by simp
    from Cons.IH[OF this] obtain new k where
      k: "trace st' = trace st1 @ new" "global_step st' = global_step st1"
         "k \<le> length hs" "r = Inr () \<longrightarrow> k = length hs"
         "filter (\<lambda>x. is_call ?cb (snd x)) new
            = map (\<lambda>i. (global_step st1, HookCall ehs i ?cb index)) [Suc pos..<Suc pos + k]"
         "list_all (\<lambda>x. P (snd x) \<or> is_call ?cb (snd x)) new"
      by blast
    have "[pos..<pos + Suc k] = pos # [Suc pos..<Suc pos + k]"
      by (simp add: upt_conv_Cons)
    with n fn pn k show ?thesis
      by (intro exI[of _ "(global_step st, HookCall ehs pos ?cb index) # nested @ new"]
                exI[of _ "Suc k"]) simp
  qed
qed

lemma lazy_split_op_quiet:
  "lazy_split_op self batches ops bstep split st = (r, st') \<Longrightarrow> quiet thunk_level st st'"
proof -
  assume a: "lazy_split_op self batches ops bstep split st = (r, st')"
  define st1 where "st1 = st\<lparr>cur_split := Some split\<rparr>"
  have q1: "quiet thunk_level st st1" by (simp add: st1_def)
  show ?thesis
  proof (cases "map_of batches split")
    case None
    with a show ?thesis by (auto simp: lazy_split_op_def Let_def)
  next
    case (Some s)
    obtain r2 st2 where n: "in_world (stream_next self s) (log_event (Next split s) st1) = (r2, st2)"
      by (cases "in_world (stream_next self s) (log_event (Next split s) st1)")
    have q2: "quiet thunk_level st1 st2"
      by (rule quiet_trans[OF quiet_log quiet_in_world[OF n]]) simp
    show ?thesis
    proof (cases r2)
      case (Inl e)
      with a Some n have "st' = st2" by (simp add: lazy_split_op_def st1_def Let_def)
      with q1 q2 show ?thesis by (auto intro: quiet_trans)
    next
      case (Inr b)
      let ?f = "Dict [(''step_ops'', ops)]"
      obtain r4 st4 where h: "run_hooks self bstep (Some ?f) (Some b) (Some b) None True False st2
          = (r4, st4)"
        by (cases "run_hooks self bstep (Some ?f) (Some b) (Some b) None True False st2")
      have q4: "quiet thunk_level st2 st4"
        by (rule run_hooks_quiet_gen[OF _ h]) (simp_all add: dispatched_def)
      show ?thesis
      proof (cases r4)
        case (Inl e)
        with a Some n Inr h have "st' = st4"
          by (simp add: lazy_split_op_def st1_def Let_def make_feeds_id)
        with q1 q2 q4 show ?thesis by (auto intro: quiet_trans)
      next
        case (Inr u)
        with a Some n \<open>r2 = Inr b\<close> h have "run ?f b st4 = (r, st')"
          by (simp add: lazy_split_op_def st1_def Let_def make_feeds_id)
        then have "quiet thunk_level st4 st'" by (rule run_quiet) simp
        with q1 q2 q4 show ?thesis by (auto intro: quiet_trans)
      qed
    qed
  qed
qed

lemmas ex_defs =
  ex_iterator_def ex_state_def ex_hook_def pulling_hook_def pulling_twice_hook_def
  failing_step_hook_def failing_exception_hook_def failing_epoch_hook_def

lemmas driver_defs =
  iterate_def private_iterate_def private_handle_exception_def private_handle_sigterm_def
  select_batches_def epoch_body_def batch_phase_def run_hooks_def call_hook_def
  lazy_split_op_def lazy_split_op_epoch_def make_feeds_def run_def in_world_def
  log_event_def increment_global_step_def done_with_def Let_def

section \<open>The sampling condition of run\_hooks\<close>

text \<open>
  C1 (amended).  A step-scoped dispatch is a call of \<^verbatim>\<open>run_hooks\<close> with fetches and
  feeds, or with results; let \<^verbatim>\<open>hook_freq\<close> be non-zero.  When
  \<^verbatim>\<open>global_step % hook_freq == 0\<close>, the hooks of the selected list receive the step
  callback (\<^verbatim>\<open>before_step\<close> or \<^verbatim>\<open>after_step\<close>) with the given index, in list order
  from the first hook on, all of them when the dispatch returns normally and at least
  one when the list is not empty, and no hook receives an epoch callback.  When
  \<^verbatim>\<open>global_step % hook_freq != 0\<close> the call returns at once and leaves the state as it
  was: no callback of any kind is made.  The thunks of the results are taken to add
  nothing but pulls, \<^verbatim>\<open>before_step\<close> calls and runs, as those of the loop do.
\<close>

theorem run_hooks_step_gate:
  assumes "hook_freq self \<noteq> 0"
    and "(\<not> Option.is_none fetches \<and> \<not> Option.is_none feeds) \<or> \<not> Option.is_none results"
    and "before \<or> results_quiet thunk_level results"
    and "run_hooks self index fetches feeds batch results before ehs st = (r, st')"
  shows "if global_step st mod hook_freq self = 0
         then (\<exists>new k. trace st' = trace st @ new
                 \<and> k \<le> length (if ehs then epoch_hooks self else hooks self)
                 \<and> (r = Inr () \<longrightarrow> k = length (if ehs then epoch_hooks self else hooks self))
                 \<and> ((if ehs then epoch_hooks self else hooks self) \<noteq> [] \<longrightarrow> 0 < k)
                 \<and> filter (\<lambda>x. is_call (if before then BeforeStep else AfterStep) (snd x)) new
                     = map (\<lambda>i. (global_step st,
                                  HookCall ehs i (if before then BeforeStep else AfterStep) index))
                         [0..<k]
                 \<and> filter (\<lambda>x. is_call BeforeEpoch (snd x) \<or> is_call AfterEpoch (snd x)) new = [])
         else r = Inr () \<and> st' = st"
proof (cases "global_step st mod hook_freq self = 0")
  case False
  with assms(1,2,4) show ?thesis by (auto simp: run_hooks_def Let_def)
next
  case True
  let ?hs = "if ehs then epoch_hooks self else hooks self"
  let ?cb = "if before then BeforeStep else AfterStep"
  from True assms(1,2,4)
  have f: "for_each_hook (call_hook index fetches feeds batch results before True ehs) 0 ?hs st
             = (r, st')"
    by (auto simp: run_hooks_def Let_def split: if_splits)
  have cb: "dispatched before True = ?cb" by (simp add: dispatched_def)
  have pre1: "before \<or> \<not> True \<or> results_quiet (\<lambda>ev. thunk_level ev \<and> \<not> before) results"
    using assms(3) by (cases before) simp_all
  have pre2: "thunk_level ev \<and> \<not> before \<Longrightarrow> \<not> is_call (dispatched before True) ev" for ev
    by (cases ev) (auto simp: dispatched_def)
  have "\<exists>new k. trace st' = trace st @ new \<and> global_step st' = global_step st
           \<and> k \<le> length ?hs \<and> (r = Inr () \<longrightarrow> k = length ?hs) \<and> (?hs \<noteq> [] \<longrightarrow> 0 < k)
           \<and> filter (\<lambda>x. is_call (dispatched before True) (snd x)) new
               = map (\<lambda>i. (global_step st, HookCall ehs i (dispatched before True) index))
                   [0..<0 + k]
           \<and> list_all (\<lambda>x. (thunk_level (snd x) \<and> \<not> before) \<or> is_call (dispatched before True) (snd x)) new"
    by (rule dispatch_trace[where P = "\<lambda>ev. thunk_level ev \<and> \<not> before", OF pre1 pre2 f])
  then obtain new k where k: "trace st' = trace st @ new"
      "k \<le> length ?hs" "r = Inr () \<longrightarrow> k = length ?hs" "?hs \<noteq> [] \<longrightarrow> 0 < k"
      "filter (\<lambda>x. is_call ?cb (snd x)) new
               = map (\<lambda>i. (global_step st, HookCall ehs i ?cb index)) [0..<k]"
      "list_all (\<lambda>x. thunk_level (snd x) \<and> \<not> before \<or> is_call ?cb (snd x)) new"
    unfolding cb by auto
  have "thunk_level ev \<and> \<not> before \<or> is_call ?cb ev
      \<Longrightarrow> \<not> (is_call BeforeEpoch ev \<or> is_call AfterEpoch ev)" for ev
    by (cases ev) (auto split: if_splits)
  with k(6) have "filter (\<lambda>x. is_call BeforeEpoch (snd x) \<or> is_call AfterEpoch (snd x)) new = []"
    by (auto simp: list_all_iff filter_empty_conv)
  with k True show ?thesis by auto
qed

theorem run_hooks_step_gate_witness:
  "hook_freq (ex_iterator [ex_hook, ex_hook]) \<noteq> 0
   \<and> global_step ex_state mod hook_freq (ex_iterator [ex_hook, ex_hook]) = 0
   \<and> (\<exists>new. trace (snd (run_hooks (ex_iterator [ex_hook, ex_hook]) 0 None None None
                            (Some (0, [])) False False ex_state))
              = trace ex_state @ new
         \<and> filter (\<lambda>x. is_call AfterStep (snd x)) new
             = [(0, HookCall False 0 AfterStep 0), (0, HookCall False 1 AfterStep 0)])"
proof -
  let ?it = "ex_iterator [ex_hook, ex_hook]"
  let ?run = "run_hooks ?it 0 None None None (Some (0, [])) False False ex_state"
  have a: "hook_freq ?it \<noteq> 0" by (simp add: ex_defs)
  have b: "(\<not> Option.is_none (None :: (nat, ex_world) fetch_op tree option)
             \<and> \<not> Option.is_none (None :: nat tree option))
           \<or> \<not> Option.is_none (Some (0 :: int, [] :: (string \<times> (nat, ex_world) thunk) list))"
    by simp
  have c: "False \<or> results_quiet thunk_level
             (Some (0 :: int, [] :: (string \<times> (nat, ex_world) thunk) list))"
    by (simp add: results_quiet_def)
  have d: "?run = (fst ?run, snd ?run)" by simp
  have r: "fst ?run = Inr ()" by (simp add: ex_defs driver_defs)
  have g: "global_step ex_state mod hook_freq ?it = 0" by (simp add: ex_defs)
  from run_hooks_step_gate[OF a b c d] g r
  have "\<exists>new. trace (snd ?run) = trace ex_state @ new
        \<and> filter (\<lambda>x. is_call AfterStep (snd x)) new
            = [(global_step ex_state, HookCall False 0 AfterStep 0),
               (global_step ex_state, HookCall False 1 AfterStep 0)]"
    by (auto simp: ex_iterator_def)
  then show ?thesis using a g by (simp add: ex_state_def)
qed

theorem run_hooks_off_step_counterexample:
  "global_step (ex_state\<lparr>global_step := 1\<rparr>) mod hook_freq ((ex_iterator [ex_hook])\<lparr>hook_freq := 2\<rparr>) \<noteq> 0
   \<and> run_hooks ((ex_iterator [ex_hook])\<lparr>hook_freq := 2\<rparr>) 0 None None None (Some (1, []))
        False False (ex_state\<lparr>global_step := 1\<rparr>)
       = (Inr (), ex_state\<lparr>global_step := 1\<rparr>)
   \<and> trace (ex_state\<lparr>global_step := 1\<rparr>) = []"
  by (simp add: ex_defs driver_defs)

section \<open>The exception path\<close>

lemma at_exception_loop:
  assumes "\<forall>h\<in>set hs. \<forall>w. fst (at_exception h e w) = Inr ()"
  shows "\<exists>st'. for_each_hook
             (\<lambda>pos hook st'. in_world (at_exception hook e) (log_event (ExcCall pos e) st'))
             pos hs st = (Inr (), st')
           \<and> trace st' = trace st @ map (\<lambda>i. (global_step st, ExcCall i e)) [pos..<pos + length hs]
           \<and> global_step st' = global_step st"
  using assms
proof (induction hs arbitrary: pos st)
  case Nil
  show ?case by simp
next
  case (Cons h hs)
  let ?body = "\<lambda>pos hook st'. in_world (at_exception hook e) (log_event (ExcCall pos e) st')"
  obtain r1 st1 where b: "?body pos h st = (r1, st1)" by (cases "?body pos h st")
  from Cons.prems have "fst (at_exception h e (world st)) = Inr ()" by simp
  with b have r1: "r1 = Inr ()" and t1: "trace st1 = trace st @ [(global_step st, ExcCall pos e)]"
    and g1: "global_step st1 = global_step st"
    by (auto dest!: in_world_result)
  from Cons.prems have "\<forall>h\<in>set hs. \<forall>w. fst (at_exception h e w) = Inr ()" by simp
  from Cons.IH[OF this, of "Suc pos" st1] obtain st' where
    s: "for_each_hook ?body (Suc pos) hs st1 = (Inr (), st')"
       "trace st' = trace st1 @ map (\<lambda>i. (global_step st1, ExcCall i e)) [Suc pos..<Suc pos + length hs]"
       "global_step st' = global_step st1" by blast
  have "[pos..<pos + Suc (length hs)] = pos # [Suc pos..<Suc pos + length hs]"
    by (simp del: upt_Suc add: upt_conv_Cons)
  with b r1 t1 g1 s show ?case by (simp del: upt_Suc)
qed

lemma handle_exception_trace:
  assumes "\<forall>h\<in>set (hooks self). \<forall>w. fst (at_exception h e w) = Inr ()"
  shows "\<exists>st'. private_handle_exception self e st = (Inr (), st')
           \<and> trace st' = trace st @ map (\<lambda>i. (global_step st, ExcCall i e)) [0..<length (hooks self)]
           \<and> global_step st' = global_step st"
  using at_exception_loop[OF assms, of 0 st] by (simp add: private_handle_exception_def)

section \<open>The signal handler\<close>

text \<open>
  C3 (amended).  When no \<^verbatim>\<open>at_exception\<close> callback raises on the shutdown condition,
  \<^verbatim>\<open>_handle_sigterm\<close> calls \<^verbatim>\<open>at_exception(ShutdownRequest())\<close> exactly once on every
  hook of \<^verbatim>\<open>self.hooks\<close>, in list order and on nothing else (the hooks of
  \<^verbatim>\<open>self.epoch_hooks\<close> are not notified), leaves the global step alone and then raises
  \<^verbatim>\<open>SystemExit(0)\<close>, the request to end the process with status 0.
\<close>

theorem sigterm_notifies_hooks:
  assumes "\<forall>h\<in>set (hooks self). \<forall>w. fst (at_exception h ShutdownRequest w) = Inr ()"
  shows "\<exists>st'. private_handle_sigterm self signum st = (Inl (SystemExit 0), st')
           \<and> trace st' = trace st
               @ map (\<lambda>i. (global_step st, ExcCall i ShutdownRequest)) [0..<length (hooks self)]
           \<and> global_step st' = global_step st"
  using handle_exception_trace[OF assms, of st] by (auto simp: private_handle_sigterm_def)

theorem sigterm_notifies_hooks_witness:
  "private_handle_sigterm (ex_iterator [ex_hook, pulling_hook]) 15 ex_state
     = (Inl (SystemExit 0),
        ex_state\<lparr>trace := [(0, ExcCall 0 ShutdownRequest), (0, ExcCall 1 ShutdownRequest)]\<rparr>)"
proof -
  let ?it = "ex_iterator [ex_hook, pulling_hook]"
  have a: "\<forall>h\<in>set (hooks ?it). \<forall>w. fst (at_exception h ShutdownRequest w) = Inr ()"
    by (simp add: ex_defs)
  from sigterm_notifies_hooks[OF a, of 15 ex_state] obtain st' where
    s: "private_handle_sigterm ?it 15 ex_state = (Inl (SystemExit 0), st')" by blast
  moreover have "snd (private_handle_sigterm ?it 15 ex_state)
      = ex_state\<lparr>trace := [(0, ExcCall 0 ShutdownRequest), (0, ExcCall 1 ShutdownRequest)]\<rparr>"
    by (simp add: ex_defs driver_defs)
  ultimately show ?thesis by simp
qed

theorem sigterm_failing_hook_counterexample:
  "private_handle_sigterm (ex_iterator [failing_exception_hook, ex_hook]) 15 ex_state
     = (Inl (HookError ''cleanup failed''),
        ex_state\<lparr>trace := [(0, ExcCall 0 ShutdownRequest)]\<rparr>)"
  by (simp add: ex_defs driver_defs)

section \<open>Epoch hooks and the sampling condition\<close>

text \<open>
  C7.  With a non-zero \<^verbatim>\<open>hook_freq\<close>, the step dispatch to the epoch hooks, for
  \<^verbatim>\<open>before_step\<close> with the tick's fetches as for \<^verbatim>\<open>after_step\<close> with the results, is
  the loop over \<^verbatim>\<open>self.epoch_hooks\<close> when \<^verbatim>\<open>global_step % hook_freq == 0\<close> and does
  nothing otherwise.  So in a tick of the per-split loop with
  \<^verbatim>\<open>global_step % hook_freq != 0\<close> no hook is called, the thunk is not invoked (no
  pull is made), \<^verbatim>\<open>active\<close> stays false, the split is reset and the loop ends after
  that tick, whatever ticks were left.
\<close>

theorem epoch_hooks_gated:
  assumes "hook_freq self \<noteq> 0"
  shows "run_hooks self bstep (Some fetches) (Some feeds) (Some batch) None True True st
           = (if global_step st mod hook_freq self = 0
              then for_each_hook
                     (call_hook bstep (Some fetches) (Some feeds) (Some batch) None True True True)
                     0 (epoch_hooks self) st
              else (Inr (), st))
       \<and> run_hooks self bstep None None None (Some results) False True st
           = (if global_step st mod hook_freq self = 0
              then for_each_hook (call_hook bstep None None None (Some results) False True True)
                     0 (epoch_hooks self) st
              else (Inr (), st))
       \<and> (global_step st mod hook_freq self \<noteq> 0 \<longrightarrow>
            (\<exists>st'. split_loop self batches ops split s (bstep # later) st = (Inr (), st')
               \<and> trace st' = trace st @ [(global_step st, SplitIter split bstep),
                                          (global_step st, Info (''Done with '' @ split)),
                                          (global_step st, Reset s)]
               \<and> \<not> active st'
               \<and> world st' = stream_reset self s (world st)
               \<and> global_step st' = global_step st))"
  using assms by (simp add: run_hooks_def done_with_def Let_def)

theorem epoch_hooks_gated_witness:
  "global_step (ex_state\<lparr>global_step := 1\<rparr>)
       mod hook_freq ((ex_iterator [])\<lparr>hook_freq := 2, epoch_hooks := [pulling_hook]\<rparr>) \<noteq> 0
   \<and> split_loop ((ex_iterator [])\<lparr>hook_freq := 2, epoch_hooks := [pulling_hook]\<rparr>)
      [(''train'', 0)] (Leaf (\<lambda>feeds w. (Inr 0, w))) ''train'' 0 [0, 1]
      (ex_state\<lparr>global_step := 1\<rparr>)
     = (Inr (),
        ex_state\<lparr>global_step := 1,
                 trace := [(1, SplitIter ''train'' 0), (1, Info ''Done with train''),
                           (1, Reset 0)]\<rparr>)"
proof -
  let ?it = "(ex_iterator [])\<lparr>hook_freq := 2, epoch_hooks := [pulling_hook]\<rparr>"
  let ?st = "ex_state\<lparr>global_step := 1\<rparr>"
  have a: "hook_freq ?it \<noteq> 0" by simp
  have b: "global_step ?st mod hook_freq ?it \<noteq> 0" by simp
  from epoch_hooks_gated[OF a, where bstep = 0 and st = ?st and batches = "[(''train'', 0)]"
      and ops = "Leaf (\<lambda>feeds w. (Inr 0, w))" and split = "''train''" and s = 0
      and later = "[1]"] b
  obtain st' where
    s: "split_loop ?it [(''train'', 0)] (Leaf (\<lambda>feeds w. (Inr 0, w))) ''train'' 0 [0, 1] ?st
          = (Inr (), st')"
    by blast
  moreover have "snd (split_loop ?it [(''train'', 0)] (Leaf (\<lambda>feeds w. (Inr 0, w))) ''train'' 0
        [0, 1] ?st)
      = ex_state\<lparr>global_step := 1,
                 trace := [(1, SplitIter ''train'' 0), (1, Info ''Done with train''),
                           (1, Reset 0)]\<rparr>"
    by (simp add: ex_defs driver_defs)
  ultimately show ?thesis using b by simp
qed

section \<open>A hook that raises\<close>







section \<open>The lazy split thunk\<close>

lemma new_trace_append [simp]: "trace st' = trace st @ new \<Longrightarrow> new_trace st st' = new"
  by (simp add: new_trace_def)

lemma lazy_split_op_trace:
  assumes "lazy_split_op self batches ops bstep split st = (Inr res, st')"
  shows "\<exists>s batch w calls. map_of batches split = Some s
           \<and> stream_next self s (world st) = (Inr batch, w)
           \<and> trace st' = trace st @ (global_step st, Next split s) # calls
                           @ [(global_step st, Run batch)]
           \<and> list_all (\<lambda>x. is_call BeforeStep (snd x)) calls
           \<and> global_step st' = global_step st"
proof -
  define st1 where "st1 = st\<lparr>cur_split := Some split\<rparr>"
  from assms obtain s where s: "map_of batches split = Some s"
    by (cases "map_of batches split") (auto simp: lazy_split_op_def Let_def)
  obtain r2 st2 where n: "in_world (stream_next self s) (log_event (Next split s) st1) = (r2, st2)"
    by (cases "in_world (stream_next self s) (log_event (Next split s) st1)")
  from assms s n obtain batch where b: "r2 = Inr batch"
    by (cases r2) (auto simp: lazy_split_op_def Let_def st1_def)
  from n b have w: "stream_next self s (world st) = (Inr batch, world st2)"
    and t2: "trace st2 = trace st @ [(global_step st, Next split s)]"
    and g2: "global_step st2 = global_step st"
    by (auto simp: st1_def in_world_def split: prod.splits)
  let ?f = "Dict [(''step_ops'', ops)]"
  obtain r4 st4 where h: "run_hooks self bstep (Some ?f) (Some batch) (Some batch) None True False st2
      = (r4, st4)"
    by (cases "run_hooks self bstep (Some ?f) (Some batch) (Some batch) None True False st2")
  have "quiet (is_call BeforeStep) st2 st4"
    by (rule run_hooks_quiet_gen[OF _ h]) (simp_all add: dispatched_def)
  then obtain calls where c: "trace st4 = trace st2 @ calls" "global_step st4 = global_step st2"
      "list_all (\<lambda>x. is_call BeforeStep (snd x)) calls"
    by (auto simp: quiet_def list_all_iff)
  from assms s n b h have "run ?f batch st4 = (Inr res, st')"
    by (cases r4) (auto simp: lazy_split_op_def Let_def st1_def make_feeds_id)
  from run_trace[OF this] w t2 g2 c s show ?thesis by auto
qed

text \<open>
  C5 (amended).  The thunk of the batch loop keeps no result.  Every invocation that
  returns pulls a batch from the split stream and runs the fetch graph on it: two
  invocations in a row make two pulls and two runs, the second pull on the stream as
  the first invocation left it, and the two runs on the two batches pulled.
\<close>

theorem thunk_reinvocation:
  assumes "lazy_split_op self batches ops bstep split st = (Inr res1, st1)"
    and "lazy_split_op self batches ops bstep split st1 = (Inr res2, st2)"
  shows "count_events is_next (new_trace st st2) = 2
       \<and> count_events is_run (new_trace st st2) = 2
       \<and> (\<exists>s batch1 batch2 w1 w2.
             stream_next self s (world st) = (Inr batch1, w1)
             \<and> stream_next self s (world st1) = (Inr batch2, w2)
             \<and> filter (\<lambda>x. is_run (snd x)) (new_trace st st2)
                 = [(global_step st, Run batch1), (global_step st, Run batch2)])"
proof -
  from lazy_split_op_trace[OF assms(1)] obtain s batch1 w1 calls1 where
    a: "map_of batches split = Some s" "stream_next self s (world st) = (Inr batch1, w1)"
       "trace st1 = trace st @ (global_step st, Next split s) # calls1 @ [(global_step st, Run batch1)]"
       "list_all (\<lambda>x. is_call BeforeStep (snd x)) calls1" "global_step st1 = global_step st"
    by blast
  from lazy_split_op_trace[OF assms(2)] a(1) obtain batch2 w2 calls2 where
    b: "stream_next self s (world st1) = (Inr batch2, w2)"
       "trace st2 = trace st1 @ (global_step st1, Next split s) # calls2 @ [(global_step st1, Run batch2)]"
       "list_all (\<lambda>x. is_call BeforeStep (snd x)) calls2"
    by auto
  have f1: "filter (\<lambda>x. is_next (snd x)) calls = []" "filter (\<lambda>x. is_run (snd x)) calls = []"
    if "list_all (\<lambda>x. is_call BeforeStep (snd x)) calls" for calls :: "(int \<times> 'a event) list"
  proof -
    have "\<not> is_next ev \<and> \<not> is_run ev" if "is_call BeforeStep ev" for ev :: "'a event"
      using that by (cases ev) auto
    with that show "filter (\<lambda>x. is_next (snd x)) calls = []"
      "filter (\<lambda>x. is_run (snd x)) calls = []"
      by (auto simp: list_all_iff filter_empty_conv)
  qed
  have nt: "new_trace st st2 = (global_step st, Next split s) # calls1 @ [(global_step st, Run batch1)]
      @ (global_step st, Next split s) # calls2 @ [(global_step st, Run batch2)]"
    using a b by (simp add: new_trace_def)
  show ?thesis
    using a(2) b(1) f1[OF a(4)] f1[OF b(3)] by (auto simp: nt count_events_def)
qed

theorem thunk_reinvocation_witness:
  "count_events is_next
     (new_trace ex_state
        (snd (lazy_split_op (ex_iterator [ex_hook]) [(''train'', 0)] (Leaf (\<lambda>feeds w. (Inr 0, w)))
                0 ''train''
           (snd (lazy_split_op (ex_iterator [ex_hook]) [(''train'', 0)]
                   (Leaf (\<lambda>feeds w. (Inr 0, w))) 0 ''train'' ex_state))))) = 2"
proof -
  let ?th = "lazy_split_op (ex_iterator [ex_hook]) [(''train'', 0)] (Leaf (\<lambda>feeds w. (Inr 0, w)))
                0 ''train''"
  have a: "?th ex_state = (Inr (Dict [(''step_ops'', Leaf 0)]), snd (?th ex_state))"
    by (simp add: ex_defs driver_defs)
  have b: "?th (snd (?th ex_state)) = (Inr (Dict [(''step_ops'', Leaf 0)]), snd (?th (snd (?th ex_state))))"
    by (simp add: ex_defs driver_defs)
  from thunk_reinvocation[OF a b] show ?thesis by simp
qed

theorem thunk_twice_counterexample:
  "trace (snd (iterate (ex_iterator [pulling_twice_hook]) 0 None ex_state))
     = [(0, EpochIter 0), (0, HookCall False 0 BeforeEpoch 0),
        (0, BatchIter 0), (0, HookCall False 0 AfterStep 0),
        (0, Next ''train'' 0), (0, HookCall False 0 BeforeStep 0),
        (0, Run (Dict [(''x'', Leaf 0)])),
        (0, Next ''train'' 0), (0, HookCall False 0 BeforeStep 0),
        (0, Run (Dict [(''x'', Leaf 1)])),
        (1, Info ''Done with epoch''), (1, Reset 0),
        (1, HookCall False 0 AfterEpoch 0),
        (1, SplitIter ''train'' 0), (1, Info ''Done with train''), (1, Reset 0)]"
  by (simp add: ex_defs driver_defs upt_rec)

section \<open>The feed payload\<close>

text \<open>
  C9 (amended).  \<^verbatim>\<open>make_feeds\<close> hands back a structure of the shape of the raw batch
  whose leaves are the leaves of the raw batch themselves: nothing behind a leaf is
  copied and no state is touched.  An invocation of the thunk that returns makes one
  pull and one run, and the payload of that run is built from the batch of that pull:
  the feed payload is produced once per batch.
\<close>

theorem make_feeds_shares_leaves:
  assumes "lazy_split_op self batches ops bstep split st = (Inr res, st')"
  shows "make_feeds raw_batch any_state = (Inr raw_batch, any_state)
       \<and> (\<exists>s batch w. stream_next self s (world st) = (Inr batch, w)
             \<and> filter (\<lambda>x. is_next (snd x) \<or> is_run (snd x)) (new_trace st st')
                 = [(global_step st, Next split s), (global_step st, Run batch)])"
proof -
  from lazy_split_op_trace[OF assms] obtain s batch w calls where
    a: "stream_next self s (world st) = (Inr batch, w)"
       "trace st' = trace st @ (global_step st, Next split s) # calls @ [(global_step st, Run batch)]"
       "list_all (\<lambda>x. is_call BeforeStep (snd x)) calls"
    by blast
  have "\<not> (is_next ev \<or> is_run ev)" if "is_call BeforeStep ev" for ev :: "'a event"
    using that by (cases ev) auto
  with a(3) have "filter (\<lambda>x. is_next (snd x) \<or> is_run (snd x)) calls = []"
    by (auto simp: list_all_iff filter_empty_conv)
  with a show ?thesis by (auto simp: make_feeds_id)
qed

theorem make_feeds_shares_leaves_witness:
  "make_feeds (Dict [(''x'', Leaf (0 :: nat))]) ex_state = (Inr (Dict [(''x'', Leaf 0)]), ex_state)
   \<and> filter (\<lambda>x. is_next (snd x) \<or> is_run (snd x))
        (new_trace ex_state
           (snd (lazy_split_op (ex_iterator [ex_hook]) [(''train'', 0)]
                   (Leaf (\<lambda>feeds w. (Inr 0, w))) 0 ''train'' ex_state)))
       = [(0, Next ''train'' 0), (0, Run (Dict [(''x'', Leaf 0)]))]"
proof -
  let ?th = "lazy_split_op (ex_iterator [ex_hook]) [(''train'', 0)] (Leaf (\<lambda>feeds w. (Inr 0, w)))
                0 ''train''"
  have a: "?th ex_state = (Inr (Dict [(''step_ops'', Leaf 0)]), snd (?th ex_state))"
    by (simp add: ex_defs driver_defs)
  note x = make_feeds_shares_leaves[OF a, where raw_batch = "Dict [(''x'', Leaf (0 :: nat))]"
      and any_state = ex_state]
  from x have m: "make_feeds (Dict [(''x'', Leaf (0 :: nat))]) ex_state
      = (Inr (Dict [(''x'', Leaf 0)]), ex_state)"
    by (rule conjunct1)
  from x have "\<exists>s batch w. stream_next (ex_iterator [ex_hook]) s (world ex_state) = (Inr batch, w)
             \<and> filter (\<lambda>x. is_next (snd x) \<or> is_run (snd x)) (new_trace ex_state (snd (?th ex_state)))
                 = [(global_step ex_state, Next ''train'' s), (global_step ex_state, Run batch)]"
    by (rule conjunct2)
  then obtain s batch w where
    "stream_next (ex_iterator [ex_hook]) s (world ex_state) = (Inr batch, w)"
    "filter (\<lambda>x. is_next (snd x) \<or> is_run (snd x)) (new_trace ex_state (snd (?th ex_state)))
                 = [(global_step ex_state, Next ''train'' s), (global_step ex_state, Run batch)]"
    by blast
  moreover have "trace (snd (?th ex_state))
      = [(0, Next ''train'' 0), (0, HookCall False 0 BeforeStep 0), (0, Run (Dict [(''x'', Leaf 0)]))]"
    by (simp add: ex_defs driver_defs)
  ultimately have "filter (\<lambda>x. is_next (snd x) \<or> is_run (snd x)) (new_trace ex_state (snd (?th ex_state)))
       = [(0, Next ''train'' 0), (0, Run (Dict [(''x'', Leaf 0)]))]"
    by (simp add: new_trace_def ex_state_def)
  with m show ?thesis by simp
qed

theorem feed_leaves_aliased_counterexample:
  "make_feeds (Dict [(''image'', Leaf (0 :: nat))]) heap_state
     = (Inr (Dict [(''image'', Leaf 0)]), heap_state)
   \<and> world heap_state = [5, 0]
   \<and> world (snd (run (Seq [Leaf overwrite_op, Leaf copy_op]) (Dict [(''image'', Leaf 0)])
                    heap_state)) = [99, 99]"
  by (simp add: heap_state_def overwrite_op_def copy_op_def driver_defs)

section \<open>CelebA: tables of different lengths\<close>

text \<open>
  C10.  When the dataset is not yet prepared, its files have been obtained, the
  partition table and the attribute table have been parsed and their numbers of rows
  differ, \<^verbatim>\<open>_prepare\<close> raises \<^verbatim>\<open>ValueError("data files do not match")\<close> in the state
  the downloads left: nothing has been dumped or marked as prepared.
  \<^verbatim>\<open>CelebA.__init__\<close> raises it too, before \<^verbatim>\<open>_load\<close>: no dataset object exists that
  could serve an example to an epoch.
\<close>

theorem mismatched_tables_fatal:
  assumes "\<not> is_prepared api d"
    and "download_files api d = (Inr (), d1)"
    and "read_eval_partition api d1 = Inr df_eval_partition"
    and "read_attr api d1 = Inr df_attr_celeba"
    and "length (snd df_attr_celeba) \<noteq> length df_eval_partition"
  shows "private_prepare api d = (Inl (ValueError ''data files do not match''), d1)
       \<and> celeba_init api config d = (Inl (ValueError ''data files do not match''), d1)"
  using assms by (simp add: private_prepare_def celeba_init_def Let_def)

theorem mismatched_tables_fatal_witness:
  "private_prepare ex_edu 0 = (Inl (ValueError ''data files do not match''), 4)
   \<and> celeba_init ex_edu \<lparr>cfg_test_mode = False, cfg_split = None\<rparr> 0
       = (Inl (ValueError ''data files do not match''), 4)"
proof -
  have a: "\<not> is_prepared ex_edu 0" by (simp add: ex_edu_def)
  have b: "download_files ex_edu 0 = (Inr (), 4)"
    by (simp add: ex_edu_def download_files_def FILES_def)
  have c: "read_eval_partition ex_edu 4 = Inr [(''000001.jpg'', 0), (''000002.jpg'', 1)]"
    by (simp add: ex_edu_def)
  have d: "read_attr ex_edu 4 = Inr ([''image_id'', ''Smiling''], [(''000001.jpg'', [1])])"
    by (simp add: ex_edu_def)
  have e: "length (snd ([''image_id'', ''Smiling''], [(''000001.jpg'', [1 :: int])]))
      \<noteq> length [(''000001.jpg'', 0 :: int), (''000002.jpg'', 1)]" by simp
  from mismatched_tables_fatal[OF a b c d e] show ?thesis by simp
qed

section \<open>The global step along a run\<close>

lemma tick_stamps_append [simp]: "tick_stamps (a @ b) = tick_stamps a @ tick_stamps b"
  by (simp add: tick_stamps_def)

lemma consecutive_append:
  "map (\<lambda>k. g + int k) [0..<m] @ map (\<lambda>k. (g + int m) + int k) [0..<n]
     = map (\<lambda>k. g + int k) [0..<m + n]"
proof -
  have "map (\<lambda>k. (g + int m) + int k) [0..<n] = map (\<lambda>k. g + int k) [m..<m + n]"
    by (rule nth_equalityI) simp_all
  moreover have "[0..<m + n] = [0..<m] @ [m..<m + n]"
    by (rule upt_add_eq_append) simp
  ultimately show ?thesis by simp
qed

lemma stamped_append:
  assumes "stamped g g1 n1" and "g1 = g + int (length (tick_stamps n1))" and "stamped g1 g2 n2"
  shows "stamped g g2 (n1 @ n2)"
proof -
  from assms have s: "sorted (map fst (n1 @ n2))"
    by (fastforce simp: stamped_def sorted_append list_all_iff)
  from assms have b: "list_all (\<lambda>x. g \<le> fst x \<and> fst x \<le> g2) (n1 @ n2)"
    by (fastforce simp: stamped_def list_all_iff)
  from assms have t: "tick_stamps (n1 @ n2)
      = map (\<lambda>k. g + int k) [0..<length (tick_stamps (n1 @ n2))]"
    using consecutive_append[of g "length (tick_stamps n1)" "length (tick_stamps n2)"]
    by (simp add: stamped_def)
  from assms have "g \<le> g2" "g2 \<le> g + int (length (tick_stamps (n1 @ n2)))"
    by (auto simp: stamped_def)
  with s b t show ?thesis by (simp add: stamped_def)
qed

lemma completes_trans:
  assumes "completes a b" and "completes b c"
  shows "completes a c"
proof -
  from assms(1) obtain n1 where 1: "trace b = trace a @ n1"
      "stamped (global_step a) (global_step b) n1"
      "global_step b = global_step a + int (length (tick_stamps n1))"
    unfolding completes_def by blast
  from assms(2) obtain n2 where 2: "trace c = trace b @ n2"
      "stamped (global_step b) (global_step c) n2"
      "global_step c = global_step b + int (length (tick_stamps n2))"
    unfolding completes_def by blast
  have "stamped (global_step a) (global_step c) (n1 @ n2)"
    using 1(2,3) 2(2) by (rule stamped_append)
  moreover have "trace c = trace a @ (n1 @ n2)" using 1(1) 2(1) by simp
  moreover have "global_step c = global_step a + int (length (tick_stamps (n1 @ n2)))"
    using 1(3) 2(3) by simp
  ultimately show ?thesis unfolding completes_def by blast
qed

lemma completes_advances:
  assumes "completes a b" and "advances b c"
  shows "advances a c"
proof -
  from assms(1) obtain n1 where 1: "trace b = trace a @ n1"
      "stamped (global_step a) (global_step b) n1"
      "global_step b = global_step a + int (length (tick_stamps n1))"
    unfolding completes_def by blast
  from assms(2) obtain n2 where 2: "trace c = trace b @ n2"
      "stamped (global_step b) (global_step c) n2"
    unfolding advances_def by blast
  have "stamped (global_step a) (global_step c) (n1 @ n2)"
    using 1(2,3) 2(2) by (rule stamped_append)
  moreover have "trace c = trace a @ (n1 @ n2)" using 1(1) 2(1) by simp
  ultimately show ?thesis unfolding advances_def by blast
qed

lemma completes_imp_advances: "completes a b \<Longrightarrow> advances a b"
  by (auto simp: completes_def advances_def)

lemma sorted_constant: "list_all (\<lambda>x. fst x = g) new \<Longrightarrow> sorted (map fst new)"
  by (induction new) (auto simp: list_all_iff)

lemma quiet_completes:
  assumes "quiet P st st'" and "\<And>ev. P ev \<Longrightarrow> \<not> is_tick ev"
  shows "completes st st'"
proof -
  from assms(1) obtain new where n: "trace st' = trace st @ new"
      "list_all (\<lambda>x. fst x = global_step st \<and> P (snd x)) new" "global_step st' = global_step st"
    by (auto simp: quiet_def)
  from n(2) assms(2) have t: "tick_stamps new = []"
    by (auto simp: tick_stamps_def list_all_iff filter_empty_conv)
  from n(2) have "list_all (\<lambda>x. fst x = global_step st) new" by (auto simp: list_all_iff)
  then have "sorted (map fst new)" by (rule sorted_constant)
  with n t show ?thesis by (auto simp: completes_def stamped_def list_all_iff)
qed

lemma advances_quiet:
  assumes "advances a b" and "quiet P b c" and "\<And>ev. P ev \<Longrightarrow> \<not> is_tick ev"
  shows "advances a c"
proof -
  from assms(1) obtain n1 where 1: "trace b = trace a @ n1" "stamped (global_step a) (global_step b) n1"
    by (auto simp: advances_def)
  from assms(2) obtain n2 where 2: "trace c = trace b @ n2"
      "list_all (\<lambda>x. fst x = global_step b \<and> P (snd x)) n2" "global_step c = global_step b"
    by (auto simp: quiet_def)
  from 2(2) assms(3) have t: "tick_stamps n2 = []"
    by (auto simp: tick_stamps_def list_all_iff filter_empty_conv)
  from 1(2) 2(2) have "sorted (map fst (n1 @ n2))"
    by (fastforce simp: stamped_def sorted_append list_all_iff intro: sorted_constant)
  with 1 2 t have "stamped (global_step a) (global_step c) (n1 @ n2)"
    by (auto simp: stamped_def list_all_iff)
  with 1 2 show ?thesis by (auto simp: advances_def)
qed

lemma proceeds_quiet:
  "quiet P st st' \<Longrightarrow> (\<And>ev. P ev \<Longrightarrow> \<not> is_tick ev) \<Longrightarrow> proceeds r st st'"
  by (simp add: proceeds_def quiet_completes completes_imp_advances)

lemma proceeds_seq: "completes a b \<Longrightarrow> proceeds r b c \<Longrightarrow> proceeds r a c"
  by (auto simp: proceeds_def intro: completes_trans completes_advances)

lemma proceeds_refl [simp]: "proceeds r st st"
  by (rule proceeds_quiet[where P = "\<lambda>ev. False"]) simp_all

lemma lazy_split_op_epoch_quiet:
  "lazy_split_op_epoch self batches ops bstep split st = (r, st') \<Longrightarrow> quiet thunk_level st st'"
proof -
  assume a: "lazy_split_op_epoch self batches ops bstep split st = (r, st')"
  define st1 where "st1 = st\<lparr>active := True, cur_split := Some split\<rparr>"
  have q1: "quiet thunk_level st st1" by (simp add: st1_def quiet_def)
  show ?thesis
  proof (cases "map_of batches split")
    case None
    with a q1 show ?thesis by (auto simp: lazy_split_op_epoch_def Let_def st1_def)
  next
    case (Some s)
    obtain r2 st2 where n: "in_world (stream_next self s) (log_event (Next split s) st1) = (r2, st2)"
      by (cases "in_world (stream_next self s) (log_event (Next split s) st1)")
    have q2: "quiet thunk_level st1 st2"
      by (rule quiet_trans[OF quiet_log quiet_in_world[OF n]]) simp
    show ?thesis
    proof (cases r2)
      case (Inl e)
      with a Some n have "st' = st2" by (simp add: lazy_split_op_epoch_def st1_def Let_def)
      with q1 q2 show ?thesis by (auto intro: quiet_trans)
    next
      case (Inr b)
      let ?f = "Dict [(''step_ops'', ops)]"
      obtain r4 st4 where h: "run_hooks self bstep (Some ?f) (Some b) (Some b) None True True st2
          = (r4, st4)"
        by (cases "run_hooks self bstep (Some ?f) (Some b) (Some b) None True True st2")
      have q4: "quiet thunk_level st2 st4"
        by (rule run_hooks_quiet_gen[OF _ h]) (simp_all add: dispatched_def)
      show ?thesis
      proof (cases r4)
        case (Inl e)
        with a Some n Inr h have "st' = st4"
          by (simp add: lazy_split_op_epoch_def st1_def Let_def make_feeds_id)
        with q1 q2 q4 show ?thesis by (auto intro: quiet_trans)
      next
        case (Inr u)
        with a Some n \<open>r2 = Inr b\<close> h have "run ?f b st4 = (r, st')"
          by (simp add: lazy_split_op_epoch_def st1_def Let_def make_feeds_id)
        then have "quiet thunk_level st4 st'" by (rule run_quiet) simp
        with q1 q2 q4 show ?thesis by (auto intro: quiet_trans)
      qed
    qed
  qed
qed

lemma thunk_level_hook_level: "thunk_level ev \<Longrightarrow> hook_level ev"
  by (cases ev) auto

lemma hook_level_split_level: "hook_level ev \<Longrightarrow> split_level ev"
  by (cases ev) auto

lemma hook_level_no_tick: "hook_level ev \<Longrightarrow> \<not> is_tick ev"
  by (cases ev) auto

lemma split_level_no_tick: "split_level ev \<Longrightarrow> \<not> is_tick ev"
  by (cases ev) auto

lemma batch_results_quiet:
  "results_quiet hook_level
     (Some (g, map (\<lambda>split. (split, lazy_split_op self batches ops bstep split)) names))"
  by (auto simp: results_quiet_def list_all_iff thunk_quiet_def
           intro: quiet_mono[OF lazy_split_op_quiet] thunk_level_hook_level)

lemma split_results_quiet:
  "results_quiet hook_level (Some (g, [(split, lazy_split_op_epoch self batches ops bstep split)]))"
  by (auto simp: results_quiet_def thunk_quiet_def
           intro: quiet_mono[OF lazy_split_op_epoch_quiet] thunk_level_hook_level)

lemma done_with_trace:
  "trace (done_with self what s st)
     = trace st @ [(global_step st, Info (''Done with '' @ what)), (global_step st, Reset s)]"
  "global_step (done_with self what s st) = global_step st"
  "world (done_with self what s st) = stream_reset self s (world st)"
  "active (done_with self what s st) = active st"
  by (simp_all add: done_with_def Let_def)

lemma done_with_quiet: "quiet split_level st (done_with self what s st)"
  by (simp add: quiet_def done_with_trace)

lemma tick_started:
  assumes "quiet hook_level (log_event (BatchIter bstep) (st\<lparr>batch_step := bstep\<rparr>)) st2"
  shows "advances st st2"
proof -
  from assms obtain new where n: "trace st2 = trace st @ (global_step st, BatchIter bstep) # new"
      "list_all (\<lambda>x. fst x = global_step st \<and> hook_level (snd x)) new"
      "global_step st2 = global_step st"
    by (auto simp: quiet_def)
  from n(2) have t: "tick_stamps new = []"
    by (auto simp: tick_stamps_def list_all_iff filter_empty_conv dest: hook_level_no_tick)
  from n(2) have "list_all (\<lambda>x. fst x = global_step st) ((global_step st, BatchIter bstep) # new)"
    by (auto simp: list_all_iff)
  then have "sorted (map fst ((global_step st, BatchIter bstep) # new))" by (rule sorted_constant)
  with n t have "stamped (global_step st) (global_step st2) ((global_step st, BatchIter bstep) # new)"
    by (auto simp: stamped_def list_all_iff tick_stamps_def)
  with n(1) show ?thesis unfolding advances_def by blast
qed

lemma tick_done:
  assumes "quiet hook_level (log_event (BatchIter bstep) (st\<lparr>batch_step := bstep\<rparr>)) st2"
    and "\<not> test_mode self"
  shows "completes st (increment_global_step self st2)"
proof -
  let ?st3 = "increment_global_step self st2"
  from assms obtain new where n: "trace ?st3 = trace st @ (global_step st, BatchIter bstep) # new"
      "list_all (\<lambda>x. fst x = global_step st \<and> hook_level (snd x)) new"
      "global_step ?st3 = global_step st + 1"
    by (auto simp: quiet_def increment_global_step_def)
  from n(2) have t: "tick_stamps new = []"
    by (auto simp: tick_stamps_def list_all_iff filter_empty_conv dest: hook_level_no_tick)
  from n(2) have "list_all (\<lambda>x. fst x = global_step st) ((global_step st, BatchIter bstep) # new)"
    by (auto simp: list_all_iff)
  then have "sorted (map fst ((global_step st, BatchIter bstep) # new))" by (rule sorted_constant)
  with n t have "stamped (global_step st) (global_step ?st3) ((global_step st, BatchIter bstep) # new)"
    by (auto simp: stamped_def list_all_iff tick_stamps_def)
  moreover have "global_step ?st3
      = global_step st + int (length (tick_stamps ((global_step st, BatchIter bstep) # new)))"
    using n(3) t by (simp add: tick_stamps_def)
  ultimately show ?thesis using n(1) unfolding completes_def by blast
qed

lemma batch_loop_proceeds:
  assumes "\<not> test_mode self"
  shows "batch_loop self batches ops steps st = (r, st') \<Longrightarrow> proceeds r st st'"
proof (induction steps arbitrary: st)
  case Nil
  then show ?case by simp
next
  case (Cons bstep later)
  define st1 where "st1 = log_event (BatchIter bstep) (st\<lparr>batch_step := bstep\<rparr>)"
  define results where "results = (global_step st1,
      map (\<lambda>split. (split, lazy_split_op self batches ops bstep split)) (map fst batches))"
  obtain r2 st2 where h: "run_hooks self bstep None None None (Some results) False False st1 = (r2, st2)"
    by (cases "run_hooks self bstep None None None (Some results) False False st1")
  have rq: "results_quiet hook_level (Some results)"
    unfolding results_def by (rule batch_results_quiet)
  have q: "quiet hook_level st1 st2"
    by (rule run_hooks_quiet[OF _ h]) (simp_all add: rq)
  show ?case
  proof (cases r2)
    case (Inl e)
    with Cons.prems h have "r = Inl e" "st' = st2" by (simp_all add: st1_def results_def Let_def)
    moreover have "advances st st2" using q unfolding st1_def by (rule tick_started)
    ultimately show ?thesis by (simp add: proceeds_def)
  next
    case (Inr u)
    let ?st3 = "increment_global_step self st2"
    have c: "completes st ?st3" using q assms unfolding st1_def by (rule tick_done)
    show ?thesis
    proof (cases "map_of batches ''train''")
      case None
      with Cons.prems h Inr have "r = Inl (KeyError ''train'')" "st' = ?st3"
        by (simp_all add: st1_def results_def Let_def)
      with c show ?thesis by (simp add: proceeds_def completes_imp_advances)
    next
      case (Some s)
      show ?thesis
      proof (cases "stream_is_new_epoch self s (world ?st3)
                    \<or> (case num_steps self of None \<Rightarrow> False | Some budget \<Rightarrow> global_step ?st3 \<ge> budget)")
        case True
        with Cons.prems h Inr Some have "st' = done_with self ''epoch'' s ?st3"
          by (simp add: st1_def results_def Let_def)
        moreover have "proceeds r ?st3 (done_with self ''epoch'' s ?st3)"
          by (rule proceeds_quiet[OF done_with_quiet split_level_no_tick])
        ultimately have "proceeds r ?st3 st'" by simp
        with c show ?thesis by (rule proceeds_seq)
      next
        case False
        with Cons.prems h Inr Some have "batch_loop self batches ops later ?st3 = (r, st')"
          by (simp add: st1_def results_def Let_def)
        then have "proceeds r ?st3 st'" by (rule Cons.IH)
        with c show ?thesis by (rule proceeds_seq)
      qed
    qed
  qed
qed

lemma batch_phase_proceeds:
  "batch_phase self batches ops st = (r, st') \<Longrightarrow> proceeds r st st'"
  by (cases "test_mode self")
     (auto simp: batch_phase_def split: option.splits intro: batch_loop_proceeds)

lemma completes_proceeds: "completes a b \<Longrightarrow> proceeds r a b"
  by (simp add: proceeds_def completes_imp_advances)

lemma split_loop_quiet:
  "split_loop self batches ops split s steps st = (r, st') \<Longrightarrow> quiet split_level st st'"
proof (induction steps arbitrary: st)
  case Nil
  then show ?case by simp
next
  case (Cons bstep later)
  let ?st2 = "(log_event (SplitIter split bstep) (st\<lparr>batch_step := bstep\<rparr>))\<lparr>active := False\<rparr>"
  let ?results = "(global_step ?st2, [(split, lazy_split_op_epoch self batches ops bstep split)])"
  have q2: "quiet split_level st ?st2" by (simp add: quiet_def)
  obtain r3 st3 where h: "run_hooks self bstep None None None (Some ?results) False True ?st2 = (r3, st3)"
    by (cases "run_hooks self bstep None None None (Some ?results) False True ?st2")
  have "results_quiet split_level (Some ?results)"
    by (auto simp: results_quiet_def thunk_quiet_def
         intro: quiet_mono[OF lazy_split_op_epoch_quiet] thunk_level_hook_level hook_level_split_level)
  then have q3: "quiet split_level ?st2 st3"
    by (intro run_hooks_quiet[OF _ h]) (simp_all add: hook_level_split_level)
  show ?case
  proof (cases r3)
    case (Inl e)
    with Cons.prems h have "st' = st3" by (simp add: Let_def)
    with q2 q3 show ?thesis by (auto intro: quiet_trans)
  next
    case (Inr u)
    show ?thesis
    proof (cases "stream_is_new_epoch self s (world st3) \<or> \<not> active st3")
      case True
      with Cons.prems h Inr have "st' = done_with self split s st3" by (simp add: Let_def)
      with q2 q3 done_with_quiet[of st3 self split s] show ?thesis by (auto intro: quiet_trans)
    next
      case False
      with Cons.prems h Inr have "split_loop self batches ops split s later st3 = (r, st')"
        by (simp add: Let_def)
      then have "quiet split_level st3 st'" by (rule Cons.IH)
      with q2 q3 show ?thesis by (auto intro: quiet_trans)
    qed
  qed
qed

lemma epoch_dispatch_quiet:
  "run_hooks self estep None None None None before ehs st = (r, st') \<Longrightarrow> quiet hook_level st st'"
  by (rule run_hooks_quiet) (simp_all add: results_quiet_def)

lemma split_phase_quiet:
  "split_phase self batches ops estep entries st = (r, st') \<Longrightarrow> quiet split_level st st'"
proof (induction entries arbitrary: st)
  case Nil
  then show ?case by simp
next
  case (Cons entry later)
  obtain r1 st1 where h1: "run_hooks self estep None None None None True True st = (r1, st1)"
    by (cases "run_hooks self estep None None None None True True st")
  have q1: "quiet split_level st st1"
    by (rule quiet_mono[OF epoch_dispatch_quiet[OF h1]]) (rule hook_level_split_level)
  show ?case
  proof (cases r1)
    case (Inl e)
    with Cons.prems h1 q1 show ?thesis by simp
  next
    case (Inr u)
    obtain r2 st2 where h2: "split_loop self batches ops (fst entry) (snd entry)
        [0..<stream_len self (snd entry) (world st1)] st1 = (r2, st2)"
      by (cases "split_loop self batches ops (fst entry) (snd entry)
        [0..<stream_len self (snd entry) (world st1)] st1")
    have q2: "quiet split_level st1 st2" using h2 by (rule split_loop_quiet)
    show ?thesis
    proof (cases r2)
      case (Inl e)
      with Cons.prems h1 \<open>r1 = Inr u\<close> h2 have "st' = st2" by simp
      with q1 q2 show ?thesis by (auto intro: quiet_trans)
    next
      case (Inr u2)
      obtain r3 st3 where h3: "run_hooks self estep None None None None False True st2 = (r3, st3)"
        by (cases "run_hooks self estep None None None None False True st2")
      have q3: "quiet split_level st2 st3"
        by (rule quiet_mono[OF epoch_dispatch_quiet[OF h3]]) (rule hook_level_split_level)
      show ?thesis
      proof (cases r3)
        case (Inl e)
        with Cons.prems h1 \<open>r1 = Inr u\<close> h2 \<open>r2 = Inr u2\<close> h3 have "st' = st3" by simp
        with q1 q2 q3 show ?thesis by (auto intro: quiet_trans)
      next
        case (Inr u3)
        with Cons.prems h1 \<open>r1 = Inr u\<close> h2 \<open>r2 = Inr u2\<close> h3
        have "split_phase self batches ops estep later st3 = (r, st')" by simp
        then have "quiet split_level st3 st'" by (rule Cons.IH)
        with q1 q2 q3 show ?thesis by (auto intro: quiet_trans)
      qed
    qed
  qed
qed

lemma epoch_body_proceeds:
  assumes "epoch_body self batches ops estep st = (r, st')"
  shows "proceeds r st st'"
proof -
  let ?st1 = "log_event (EpochIter estep) (st\<lparr>epoch_step := estep\<rparr>)"
  have "quiet (\<lambda>ev. \<not> is_tick ev) st ?st1" by (simp add: quiet_def)
  then have c1: "completes st ?st1" by (rule quiet_completes)
  obtain r2 st2 where h2: "run_hooks self estep None None None None True False ?st1 = (r2, st2)"
    by (cases "run_hooks self estep None None None None True False ?st1")
  have "completes ?st1 st2"
    by (rule quiet_completes[OF epoch_dispatch_quiet[OF h2] hook_level_no_tick])
  with c1 have c2: "completes st st2" by (rule completes_trans)
  show ?thesis
  proof (cases r2)
    case (Inl e)
    with assms h2 have "st' = st2" by (simp add: epoch_body_def Let_def)
    with c2 show ?thesis by (simp add: completes_proceeds)
  next
    case (Inr u)
    obtain r3 st3 where h3: "batch_phase self batches ops st2 = (r3, st3)"
      by (cases "batch_phase self batches ops st2")
    have p3: "proceeds r3 st2 st3" using h3 by (rule batch_phase_proceeds)
    show ?thesis
    proof (cases r3)
      case (Inl e)
      with assms h2 \<open>r2 = Inr u\<close> h3 have "r = r3" "st' = st3" by (simp_all add: epoch_body_def Let_def)
      with c2 p3 show ?thesis by (auto intro: proceeds_seq)
    next
      case (Inr u3)
      with p3 have "completes st2 st3" by (simp add: proceeds_def)
      with c2 have c3: "completes st st3" by (rule completes_trans)
      obtain r4 st4 where h4: "run_hooks self estep None None None None False False st3 = (r4, st4)"
        by (cases "run_hooks self estep None None None None False False st3")
      have "completes st3 st4"
        by (rule quiet_completes[OF epoch_dispatch_quiet[OF h4] hook_level_no_tick])
      with c3 have c4: "completes st st4" by (rule completes_trans)
      show ?thesis
      proof (cases r4)
        case (Inl e)
        with assms h2 \<open>r2 = Inr u\<close> h3 \<open>r3 = Inr u3\<close> h4 have "st' = st4"
          by (simp add: epoch_body_def Let_def)
        with c4 show ?thesis by (simp add: completes_proceeds)
      next
        case (Inr u4)
        with assms h2 \<open>r2 = Inr u\<close> h3 \<open>r3 = Inr u3\<close> h4
        have "split_phase self batches ops estep batches st4 = (r, st')"
          by (simp add: epoch_body_def Let_def)
        then have "completes st4 st'"
          by (rule quiet_completes[OF split_phase_quiet split_level_no_tick])
        with c4 have "completes st st'" by (rule completes_trans)
        then show ?thesis by (rule completes_proceeds)
      qed
    qed
  qed
qed

lemma epoch_loop_proceeds:
  "epoch_loop self batches ops esteps st = (r, st') \<Longrightarrow> proceeds r st st'"
proof (induction esteps arbitrary: st)
  case Nil
  then show ?case by simp
next
  case (Cons estep later)
  obtain r1 st1 where h: "epoch_body self batches ops estep st = (r1, st1)"
    by (cases "epoch_body self batches ops estep st")
  have p1: "proceeds r1 st st1" using h by (rule epoch_body_proceeds)
  show ?case
  proof (cases r1)
    case (Inl e)
    with Cons.prems h p1 show ?thesis by simp
  next
    case (Inr u)
    with p1 have c: "completes st st1" by (simp add: proceeds_def)
    from Cons.prems h Inr have "epoch_loop self batches ops later st1 = (r, st')" by simp
    then have "proceeds r st1 st'" by (rule Cons.IH)
    with c show ?thesis by (rule proceeds_seq)
  qed
qed

lemma private_iterate_proceeds:
  assumes "private_iterate self batch_iterator batch_iterator_validation st = (r, st')"
  shows "proceeds r st st'"
proof -
  obtain r1 st1 where h: "in_world (step_ops self) st = (r1, st1)"
    by (cases "in_world (step_ops self) st")
  have c1: "completes st st1"
    by (rule quiet_completes[OF quiet_in_world[OF h, of "\<lambda>ev. \<not> is_tick ev"]])
  show ?thesis
  proof (cases r1)
    case (Inl e)
    with assms h have "st' = st1" by (simp add: private_iterate_def)
    with c1 show ?thesis by (simp add: completes_proceeds)
  next
    case (Inr fetch_ops)
    let ?st2 = "if test_mode self \<and> batch_iterator_validation = None
        then log_event (Warning ''No validation batch specified, defaulting to train batch.'') st1
        else st1"
    have "quiet (\<lambda>ev. \<not> is_tick ev) st1 ?st2" by (simp add: quiet_def)
    then have "completes st1 ?st2" by (rule quiet_completes)
    with c1 have c2: "completes st ?st2" by (rule completes_trans)
    from assms h Inr obtain batches esteps where
      "epoch_loop self batches fetch_ops esteps ?st2 = (r, st')"
      by (simp add: private_iterate_def Let_def)
    then have "proceeds r ?st2 st'" by (rule epoch_loop_proceeds)
    with c2 show ?thesis by (rule proceeds_seq)
  qed
qed

lemma handle_exception_quiet:
  "private_handle_exception self e st = (r, st') \<Longrightarrow> quiet (\<lambda>ev. \<not> is_tick ev) st st'"
  unfolding private_handle_exception_def
  by (erule for_each_hook_quiet[rotated])
     (auto intro!: quiet_trans[OF quiet_log quiet_in_world])

lemma iterate_proceeds:
  assumes "iterate self batch_iterator batch_iterator_validation st = (r, st')"
  shows "proceeds r st st'"
proof -
  obtain r1 st1 where h: "private_iterate self batch_iterator batch_iterator_validation st = (r1, st1)"
    by (cases "private_iterate self batch_iterator batch_iterator_validation st")
  have p1: "proceeds r1 st st1" using h by (rule private_iterate_proceeds)
  show ?thesis
  proof (cases r1)
    case (Inr u)
    with assms h p1 show ?thesis by (simp add: iterate_def)
  next
    case (Inl e)
    show ?thesis
    proof (cases "is_Exception e")
      case False
      with assms h Inl p1 show ?thesis by (simp add: iterate_def)
    next
      case True
      obtain r2 st2 where h2: "private_handle_exception self e st1 = (r2, st2)"
        by (cases "private_handle_exception self e st1")
      from p1 have "advances st st1" by (simp add: proceeds_def)
      then have a: "advances st st2"
        using handle_exception_quiet[OF h2] by (rule advances_quiet) simp
      from assms h Inl True h2 have "st' = st2" "r \<noteq> Inr ()"
        by (auto simp: iterate_def split: sum.splits)
      with a show ?thesis by (simp add: proceeds_def)
    qed
  qed
qed

lemma batch_phase_test: "test_mode self \<Longrightarrow> batch_phase self batches ops st = (Inr (), st)"
  by (simp add: batch_phase_def)

lemma epoch_body_test:
  assumes "test_mode self" and "epoch_body self batches ops estep st = (r, st')"
  shows "\<exists>rest. trace st' = trace st @ (global_step st, EpochIter estep) # rest
           \<and> list_all (\<lambda>x. fst x = global_step st \<and> split_level (snd x)) rest
           \<and> global_step st' = global_step st"
proof -
  let ?st1 = "log_event (EpochIter estep) (st\<lparr>epoch_step := estep\<rparr>)"
  obtain r2 st2 where h2: "run_hooks self estep None None None None True False ?st1 = (r2, st2)"
    by (cases "run_hooks self estep None None None None True False ?st1")
  have q2: "quiet split_level ?st1 st2"
    by (rule quiet_mono[OF epoch_dispatch_quiet[OF h2]]) (rule hook_level_split_level)
  have "quiet split_level ?st1 st'"
  proof (cases r2)
    case (Inl e)
    with assms h2 have "st' = st2" by (simp add: epoch_body_def Let_def)
    with q2 show ?thesis by simp
  next
    case (Inr u)
    obtain r4 st4 where h4: "run_hooks self estep None None None None False False st2 = (r4, st4)"
      by (cases "run_hooks self estep None None None None False False st2")
    have q4: "quiet split_level st2 st4"
      by (rule quiet_mono[OF epoch_dispatch_quiet[OF h4]]) (rule hook_level_split_level)
    show ?thesis
    proof (cases r4)
      case (Inl e)
      with assms h2 \<open>r2 = Inr u\<close> h4 have "st' = st4"
        by (simp add: epoch_body_def Let_def batch_phase_test)
      with q2 q4 show ?thesis by (auto intro: quiet_trans)
    next
      case (Inr u4)
      with assms h2 \<open>r2 = Inr u\<close> h4
      have "split_phase self batches ops estep batches st4 = (r, st')"
        by (simp add: epoch_body_def Let_def batch_phase_test)
      then have "quiet split_level st4 st'" by (rule split_phase_quiet)
      with q2 q4 show ?thesis by (auto intro: quiet_trans)
    qed
  qed
  then show ?thesis by (auto simp: quiet_def)
qed


lemma epoch_body_test_quiet:
  assumes "test_mode self" and "epoch_body self batches ops estep st = (r, st')"
  shows "quiet (\<lambda>ev. \<not> is_tick ev) st st'"
proof -
  from epoch_body_test[OF assms] obtain rest where
    r: "trace st' = trace st @ (global_step st, EpochIter estep) # rest"
       "list_all (\<lambda>x. fst x = global_step st \<and> split_level (snd x)) rest"
       "global_step st' = global_step st" by blast
  from r(2) have "list_all (\<lambda>x. fst x = global_step st \<and> \<not> is_tick (snd x)) rest"
    by (simp add: list_all_iff split_level_no_tick)
  with r(1,3) show ?thesis by (simp add: quiet_def)
qed

lemma epoch_loop_test_quiet:
  assumes "test_mode self"
  shows "epoch_loop self batches ops esteps st = (r, st') \<Longrightarrow> quiet (\<lambda>ev. \<not> is_tick ev) st st'"
proof (induction esteps arbitrary: st)
  case Nil
  then show ?case by simp
next
  case (Cons estep later)
  obtain r1 st1 where h: "epoch_body self batches ops estep st = (r1, st1)"
    by (cases "epoch_body self batches ops estep st")
  have q1: "quiet (\<lambda>ev. \<not> is_tick ev) st st1" using assms h by (rule epoch_body_test_quiet)
  show ?case
  proof (cases r1)
    case (Inl e)
    with Cons.prems h q1 show ?thesis by simp
  next
    case (Inr u)
    with Cons.prems h have "epoch_loop self batches ops later st1 = (r, st')" by simp
    then have "quiet (\<lambda>ev. \<not> is_tick ev) st1 st'" by (rule Cons.IH)
    with q1 show ?thesis by (rule quiet_trans)
  qed
qed

lemma private_iterate_test_quiet:
  assumes "test_mode self"
    and "private_iterate self batch_iterator batch_iterator_validation st = (r, st')"
  shows "quiet (\<lambda>ev. \<not> is_tick ev) st st'"
proof -
  obtain r1 st1 where h: "in_world (step_ops self) st = (r1, st1)"
    by (cases "in_world (step_ops self) st")
  have q1: "quiet (\<lambda>ev. \<not> is_tick ev) st st1" using h by (rule quiet_in_world)
  show ?thesis
  proof (cases r1)
    case (Inl e)
    with assms h q1 show ?thesis by (simp add: private_iterate_def)
  next
    case (Inr fetch_ops)
    let ?st2 = "if test_mode self \<and> batch_iterator_validation = None
        then log_event (Warning ''No validation batch specified, defaulting to train batch.'') st1
        else st1"
    have q2: "quiet (\<lambda>ev. \<not> is_tick ev) st1 ?st2" by (simp add: quiet_def)
    from assms(2) h Inr obtain batches esteps where
      "epoch_loop self batches fetch_ops esteps ?st2 = (r, st')"
      by (simp add: private_iterate_def Let_def)
    then have "quiet (\<lambda>ev. \<not> is_tick ev) ?st2 st'" by (rule epoch_loop_test_quiet[OF assms(1)])
    with q1 q2 show ?thesis by (blast intro: quiet_trans)
  qed
qed

lemma iterate_test_quiet:
  assumes "test_mode self"
    and "iterate self batch_iterator batch_iterator_validation st = (r, st')"
  shows "quiet (\<lambda>ev. \<not> is_tick ev) st st'"
proof -
  obtain r1 st1 where h: "private_iterate self batch_iterator batch_iterator_validation st = (r1, st1)"
    by (cases "private_iterate self batch_iterator batch_iterator_validation st")
  have q1: "quiet (\<lambda>ev. \<not> is_tick ev) st st1" using assms(1) h by (rule private_iterate_test_quiet)
  show ?thesis
  proof (cases r1)
    case (Inr u)
    with assms h q1 show ?thesis by (simp add: iterate_def)
  next
    case (Inl e)
    show ?thesis
    proof (cases "is_Exception e")
      case False
      with assms h Inl q1 show ?thesis by (simp add: iterate_def)
    next
      case True
      obtain r2 st2 where h2: "private_handle_exception self e st1 = (r2, st2)"
        by (cases "private_handle_exception self e st1")
      from assms h Inl True h2 have "st' = st2" by (auto simp: iterate_def split: sum.splits)
      with q1 handle_exception_quiet[OF h2] show ?thesis by (auto intro: quiet_trans)
    qed
  qed
qed

text \<open>
  C4 (amended).  The global step counts the ticks of the batch loop, whether or not a
  batch was pulled in them.  Whatever \<^verbatim>\<open>iterate\<close> does and however it ends: the events
  of the run carry non-decreasing values of the global step, all between its value before the run and
  its value after, which is not smaller; the \<open>k\<close>-th tick of the batch loop, counting
  from 0, starts at the value before the run plus \<open>k\<close>, so that after \<open>N\<close> ticks the
  global step is that value plus \<open>N\<close>; the global step never grows by more than the
  number of ticks, and by exactly that number when \<^verbatim>\<open>iterate\<close> returns normally; with
  \<^verbatim>\<open>test_mode\<close> it has not changed and there has been no tick.
\<close>

theorem global_step_progress:
  assumes "iterate self batch_iterator batch_iterator_validation st = (r, st')"
  shows "\<exists>new. trace st' = trace st @ new
           \<and> sorted (map fst new)
           \<and> list_all (\<lambda>x. global_step st \<le> fst x \<and> fst x \<le> global_step st') new
           \<and> global_step st \<le> global_step st'
           \<and> tick_stamps new = map (\<lambda>k. global_step st + int k) [0..<length (tick_stamps new)]
           \<and> global_step st' \<le> global_step st + int (length (tick_stamps new))
           \<and> (r = Inr () \<longrightarrow> global_step st' = global_step st + int (length (tick_stamps new)))
           \<and> (test_mode self \<longrightarrow> global_step st' = global_step st \<and> tick_stamps new = [])"
proof -
  from iterate_proceeds[OF assms] have a: "advances st st'" and c: "r = Inr () \<longrightarrow> completes st st'"
    by (simp_all add: proceeds_def)
  from a obtain new where n: "trace st' = trace st @ new"
      "stamped (global_step st) (global_step st') new"
    unfolding advances_def by blast
  have c': "r = Inr () \<longrightarrow> global_step st' = global_step st + int (length (tick_stamps new))"
    using c n(1) by (auto simp: completes_def)
  have t: "test_mode self \<longrightarrow> global_step st' = global_step st \<and> tick_stamps new = []"
  proof
    assume "test_mode self"
    from iterate_test_quiet[OF this assms] n(1)
    show "global_step st' = global_step st \<and> tick_stamps new = []"
      by (auto simp: quiet_def tick_stamps_def list_all_iff filter_empty_conv)
  qed
  from n c' t show ?thesis unfolding stamped_def by blast
qed

theorem global_step_progress_witness:
  "fst (iterate (ex_iterator [pulling_hook]) 0 None ex_state) = Inr ()
   \<and> tick_stamps (trace (snd (iterate (ex_iterator [pulling_hook]) 0 None ex_state))) = [0, 1]
   \<and> global_step (snd (iterate (ex_iterator [pulling_hook]) 0 None ex_state)) = 2"
proof -
  let ?run = "iterate (ex_iterator [pulling_hook]) 0 None ex_state"
  have r: "fst ?run = Inr ()" by (simp add: ex_defs driver_defs upt_rec)
  have t: "trace (snd ?run)
     = [(0, EpochIter 0), (0, HookCall False 0 BeforeEpoch 0),
        (0, BatchIter 0), (0, HookCall False 0 AfterStep 0),
        (0, Next ''train'' 0), (0, HookCall False 0 BeforeStep 0),
        (0, Run (Dict [(''x'', Leaf 0)])),
        (1, BatchIter 1), (1, HookCall False 0 AfterStep 1),
        (1, Next ''train'' 0), (1, HookCall False 0 BeforeStep 1),
        (1, Run (Dict [(''x'', Leaf 1)])),
        (2, Info ''Done with epoch''), (2, Reset 0),
        (2, HookCall False 0 AfterEpoch 0),
        (2, SplitIter ''train'' 0), (2, Info ''Done with train''), (2, Reset 0)]"
    by (simp add: ex_defs driver_defs upt_rec)
  have e: "?run = (fst ?run, snd ?run)" by simp
  from global_step_progress[OF e] obtain new where
    n: "trace (snd ?run) = trace ex_state @ new"
       "fst ?run = Inr () \<longrightarrow>
          global_step (snd ?run) = global_step ex_state + int (length (tick_stamps new))"
    by blast
  from n(1) have "new = trace (snd ?run)" by (simp add: ex_state_def)
  with t have ts: "tick_stamps new = [0, 1]" "tick_stamps (trace (snd ?run)) = [0, 1]"
    by (simp_all add: tick_stamps_def)
  with n(2) r have "global_step (snd ?run) = 2" by (simp add: ex_state_def)
  with r ts show ?thesis by simp
qed

theorem global_step_without_batches_counterexample:
  "hooks (ex_iterator []) = []
   \<and> trace (snd (iterate (ex_iterator []) 0 None ex_state))
     = [(0, EpochIter 0), (0, BatchIter 0), (1, BatchIter 1),
        (2, SplitIter ''train'' 0), (2, Info ''Done with train''), (2, Reset 0)]
   \<and> count_events is_next (trace (snd (iterate (ex_iterator []) 0 None ex_state))) = 0
   \<and> count_events is_run (trace (snd (iterate (ex_iterator []) 0 None ex_state))) = 0
   \<and> global_step ex_state = 0
   \<and> global_step (snd (iterate (ex_iterator []) 0 None ex_state)) = 2"
proof -
  let ?run = "iterate (ex_iterator []) 0 None ex_state"
  have t: "trace (snd ?run)
     = [(0, EpochIter 0), (0, BatchIter 0), (1, BatchIter 1),
        (2, SplitIter ''train'' 0), (2, Info ''Done with train''), (2, Reset 0)]"
    and g: "global_step (snd ?run) = 2"
    by (simp_all add: ex_defs driver_defs upt_rec)
  moreover have "hooks (ex_iterator []) = []" "global_step ex_state = 0"
    by (simp_all add: ex_defs)
  ultimately show ?thesis by (simp add: count_events_def)
qed

lemma batch_loop_shape:
  assumes "map_of batches ''train'' = Some s"
  shows "batch_loop self batches ops steps st = (r, st') \<Longrightarrow>
         \<exists>body tail. trace st' = trace st @ body @ tail
           \<and> list_all (\<lambda>x. is_tick (snd x) \<or> hook_level (snd x)) body
           \<and> count_events is_tick body \<le> length steps
           \<and> (tail = [] \<or> (r = Inr ()
                 \<and> tail = [(global_step st', Info ''Done with epoch''),
                           (global_step st', Reset s)]))"
proof (induction steps arbitrary: st)
  case Nil
  then have "trace st' = trace st @ [] @ []" by simp
  then show ?case by (intro exI[of _ "[]"] conjI) (simp_all add: count_events_def)
next
  case (Cons bstep later)
  define st1 where "st1 = log_event (BatchIter bstep) (st\<lparr>batch_step := bstep\<rparr>)"
  define results where "results = (global_step st1,
      map (\<lambda>split. (split, lazy_split_op self batches ops bstep split)) (map fst batches))"
  obtain r2 st2 where h: "run_hooks self bstep None None None (Some results) False False st1 = (r2, st2)"
    by (cases "run_hooks self bstep None None None (Some results) False False st1")
  have rq: "results_quiet hook_level (Some results)"
    unfolding results_def by (rule batch_results_quiet)
  have q: "quiet hook_level st1 st2"
    by (rule run_hooks_quiet[OF _ h]) (simp_all add: rq)
  then obtain new where n: "trace st2 = trace st @ (global_step st, BatchIter bstep) # new"
      "list_all (\<lambda>x. hook_level (snd x)) new"
    by (auto simp: quiet_def st1_def list_all_iff)
  let ?tick = "(global_step st, BatchIter bstep) # new"
  have tl: "list_all (\<lambda>x. is_tick (snd x) \<or> hook_level (snd x)) ?tick"
    using n(2) by (simp add: list_all_iff)
  have tc: "count_events is_tick ?tick = 1"
    using n(2) by (auto simp: count_events_def list_all_iff filter_empty_conv dest: hook_level_no_tick)
  let ?st3 = "increment_global_step self st2"
  have t3: "trace ?st3 = trace st @ ?tick" using n(1) by (simp add: increment_global_step_def)
  show ?case
  proof (cases r2)
    case (Inl e)
    with Cons.prems h have "st' = st2" by (simp add: st1_def results_def Let_def)
    with n(1) have "trace st' = trace st @ ?tick @ []" by simp
    with tl tc show ?thesis by (intro exI[of _ ?tick] exI[of _ "[]"]) simp
  next
    case (Inr u)
    show ?thesis
    proof (cases "stream_is_new_epoch self s (world ?st3)
                  \<or> (case num_steps self of None \<Rightarrow> False | Some budget \<Rightarrow> global_step ?st3 \<ge> budget)")
      case True
      with Cons.prems h Inr assms have "st' = done_with self ''epoch'' s ?st3" "r = Inr ()"
        by (simp_all add: st1_def results_def Let_def)
      with t3 have "trace st' = trace st @ ?tick
          @ [(global_step st', Info ''Done with epoch''), (global_step st', Reset s)]"
        by (simp add: done_with_trace)
      with tl tc \<open>r = Inr ()\<close> show ?thesis
        by (intro exI[of _ ?tick]
              exI[of _ "[(global_step st', Info ''Done with epoch''), (global_step st', Reset s)]"])
          simp
    next
      case False
      with Cons.prems h Inr assms have "batch_loop self batches ops later ?st3 = (r, st')"
        by (simp add: st1_def results_def Let_def)
      from Cons.IH[OF this] obtain body tail where
        b: "trace st' = trace ?st3 @ body @ tail"
           "list_all (\<lambda>x. is_tick (snd x) \<or> hook_level (snd x)) body"
           "count_events is_tick body \<le> length later"
           "tail = [] \<or> (r = Inr ()
                 \<and> tail = [(global_step st', Info ''Done with epoch''), (global_step st', Reset s)])"
        by blast
      from b(1) t3 have "trace st' = trace st @ (?tick @ body) @ tail" by simp
      moreover from tl b(2) have "list_all (\<lambda>x. is_tick (snd x) \<or> hook_level (snd x)) (?tick @ body)"
        by simp
      moreover from tc b(3) have "count_events is_tick (?tick @ body) \<le> length (bstep # later)"
        by (simp add: count_events_def)
      ultimately show ?thesis using b(4) by blast
    qed
  qed
qed

section \<open>Ticks and resets of the batch loop\<close>

text \<open>
  C6 (amended).  With \<^verbatim>\<open>test_mode\<close> off, the batch loop of an epoch runs at most as
  many ticks as the train stream reports as its length when the loop starts.  It
  calls \<^verbatim>\<open>reset()\<close> at most once: its events are those of its ticks, with no reset
  among them, followed either by nothing or, when the loop is left by its
  \<^verbatim>\<open>break\<close>, by the logger's line and one reset of the train stream.
\<close>

theorem batch_phase_bounds:
  assumes "\<not> test_mode self"
    and "map_of batches ''train'' = Some s"
    and "batch_phase self batches ops st = (r, st')"
  shows "\<exists>body tail. new_trace st st' = body @ tail
           \<and> count_events is_tick (new_trace st st') \<le> stream_len self s (world st)
           \<and> count_events is_reset body = 0
           \<and> (tail = [] \<or> (r = Inr ()
                 \<and> tail = [(global_step st', Info ''Done with epoch''),
                           (global_step st', Reset s)]))
           \<and> count_events is_reset (new_trace st st') \<le> 1"
proof -
  from assms have "batch_loop self batches ops [0..<stream_len self s (world st)] st = (r, st')"
    by (simp add: batch_phase_def)
  from batch_loop_shape[OF assms(2) this] obtain body tail where
    b: "trace st' = trace st @ body @ tail"
       "list_all (\<lambda>x. is_tick (snd x) \<or> hook_level (snd x)) body"
       "count_events is_tick body \<le> stream_len self s (world st)"
       "tail = [] \<or> (r = Inr ()
           \<and> tail = [(global_step st', Info ''Done with epoch''), (global_step st', Reset s)])"
    by auto
  have nr: "\<not> is_reset ev" if "is_tick ev \<or> hook_level ev" for ev :: "'a event"
    using that by (cases ev) auto
  with b(2) have rb: "count_events is_reset body = 0"
    by (auto simp: count_events_def list_all_iff filter_empty_conv)
  from b(1) have nt: "new_trace st st' = body @ tail" by (simp add: new_trace_def)
  from b(4) have tt: "count_events is_tick tail = 0" "count_events is_reset tail \<le> 1"
    by (auto simp: count_events_def)
  have "count_events is_tick (new_trace st st') \<le> stream_len self s (world st)"
    using b(3) tt(1) by (simp add: nt count_events_def)
  moreover have "count_events is_reset (new_trace st st') \<le> 1"
    using rb tt(2) by (simp add: nt count_events_def)
  ultimately show ?thesis using nt rb b(4) by blast
qed

theorem batch_phase_bounds_witness:
  "new_trace ex_state
     (snd (batch_phase (ex_iterator [pulling_hook]) [(''train'', 0)]
             (Leaf (\<lambda>feeds w. (Inr 0, w))) ex_state))
     = [(0, BatchIter 0), (0, HookCall False 0 AfterStep 0),
        (0, Next ''train'' 0), (0, HookCall False 0 BeforeStep 0),
        (0, Run (Dict [(''x'', Leaf 0)])),
        (1, BatchIter 1), (1, HookCall False 0 AfterStep 1),
        (1, Next ''train'' 0), (1, HookCall False 0 BeforeStep 1),
        (1, Run (Dict [(''x'', Leaf 1)])),
        (2, Info ''Done with epoch''), (2, Reset 0)]
   \<and> count_events is_reset
       (new_trace ex_state
          (snd (batch_phase (ex_iterator [pulling_hook]) [(''train'', 0)]
                  (Leaf (\<lambda>feeds w. (Inr 0, w))) ex_state))) \<le> 1"
proof -
  let ?it = "ex_iterator [pulling_hook]"
  let ?run = "batch_phase ?it [(''train'', 0)] (Leaf (\<lambda>feeds w. (Inr 0, w))) ex_state"
  have a: "\<not> test_mode ?it" by (simp add: ex_defs)
  have b: "map_of [(''train'', 0 :: nat)] ''train'' = Some 0" by simp
  have c: "?run = (fst ?run, snd ?run)" by simp
  from batch_phase_bounds[OF a b c]
  have "count_events is_reset (new_trace ex_state (snd ?run)) \<le> 1" by blast
  moreover have "new_trace ex_state (snd ?run)
     = [(0, BatchIter 0), (0, HookCall False 0 AfterStep 0),
        (0, Next ''train'' 0), (0, HookCall False 0 BeforeStep 0),
        (0, Run (Dict [(''x'', Leaf 0)])),
        (1, BatchIter 1), (1, HookCall False 0 AfterStep 1),
        (1, Next ''train'' 0), (1, HookCall False 0 BeforeStep 1),
        (1, Run (Dict [(''x'', Leaf 1)])),
        (2, Info ''Done with epoch''), (2, Reset 0)]"
    by (simp add: new_trace_def ex_defs driver_defs upt_rec)
  ultimately show ?thesis by simp
qed

theorem reset_twice_counterexample:
  "num_epochs (ex_iterator [pulling_hook]) = 1
   \<and> \<not> test_mode (ex_iterator [pulling_hook])
   \<and> trace (snd (iterate (ex_iterator [pulling_hook]) 0 None ex_state))
     = [(0, EpochIter 0), (0, HookCall False 0 BeforeEpoch 0),
        (0, BatchIter 0), (0, HookCall False 0 AfterStep 0),
        (0, Next ''train'' 0), (0, HookCall False 0 BeforeStep 0),
        (0, Run (Dict [(''x'', Leaf 0)])),
        (1, BatchIter 1), (1, HookCall False 0 AfterStep 1),
        (1, Next ''train'' 0), (1, HookCall False 0 BeforeStep 1),
        (1, Run (Dict [(''x'', Leaf 1)])),
        (2, Info ''Done with epoch''), (2, Reset 0),
        (2, HookCall False 0 AfterEpoch 0),
        (2, SplitIter ''train'' 0), (2, Info ''Done with train''), (2, Reset 0)]
   \<and> count_events is_reset (trace (snd (iterate (ex_iterator [pulling_hook]) 0 None ex_state))) = 2"
proof -
  let ?run = "iterate (ex_iterator [pulling_hook]) 0 None ex_state"
  have t: "trace (snd ?run)
     = [(0, EpochIter 0), (0, HookCall False 0 BeforeEpoch 0),
        (0, BatchIter 0), (0, HookCall False 0 AfterStep 0),
        (0, Next ''train'' 0), (0, HookCall False 0 BeforeStep 0),
        (0, Run (Dict [(''x'', Leaf 0)])),
        (1, BatchIter 1), (1, HookCall False 0 AfterStep 1),
        (1, Next ''train'' 0), (1, HookCall False 0 BeforeStep 1),
        (1, Run (Dict [(''x'', Leaf 1)])),
        (2, Info ''Done with epoch''), (2, Reset 0),
        (2, HookCall False 0 AfterEpoch 0),
        (2, SplitIter ''train'' 0), (2, Info ''Done with train''), (2, Reset 0)]"
    by (simp add: ex_defs driver_defs upt_rec)
  moreover have "num_epochs (ex_iterator [pulling_hook]) = 1"
    "\<not> test_mode (ex_iterator [pulling_hook])" by (simp_all add: ex_defs)
  ultimately show ?thesis by (simp add: count_events_def)
qed









section \<open>Dry run without a validation stream\<close>




end
